theory Spec2Isabelle
  imports Complex_Main "HOL-Library.Log_Nat" "HOL-Library.Sublist"
begin

section \<open>Python strings and number parsing used by the converter\<close>

text \<open>
  The worker thread of \<^verbatim>\<open>video_converter.py\<close> reads the output of the external encoder
  line by line and scrapes the elapsed media time out of it with \<^verbatim>\<open>in\<close>,
  \<^verbatim>\<open>str.split\<close>, \<^verbatim>\<open>int\<close> and \<^verbatim>\<open>float\<close>. These built-ins are modelled here on
  \<^typ>\<open>string\<close>, whose characters are those below 256. The limit that recent
  interpreters put on the number of digits \<^verbatim>\<open>int\<close> accepts is not modelled.
\<close>

text \<open>The exceptions of the parser; an \<^verbatim>\<open>OverflowError\<close> carries its message.\<close>

datatype exn = IndexError | ValueError | ZeroDivisionError | OverflowError string

section \<open>Python floats\<close>

text \<open>
  A Python float is an IEEE 754 double: a finite value, given here by the rational number
  it stands for, one of the two infinities, or not-a-number. The sign of a zero is not
  modelled.
\<close>

datatype pyfloat = Finite rat | PosInf | NegInf | NotANumber

text \<open>
  The binary exponent of a positive rational: \<open>2 powi expo x \<le> x < 2 powi (expo x + 1)\<close>.
\<close>

definition expo :: "rat \<Rightarrow> int" where
  "expo x = (if 1 \<le> x then bitlen \<lfloor>x\<rfloor> - 1 else - bitlen (\<lceil>1 / x\<rceil> - 1))"

text \<open>Rounding to the nearest integer, a tie going to the even one.\<close>

definition round_half_even :: "rat \<Rightarrow> int" where
  "round_half_even r = (let f = \<lfloor>r\<rfloor>; t = r - of_int f
     in if t < 1 / 2 then f else if 1 / 2 < t then f + 1 else if even f then f else f + 1)"

text \<open>
  A positive rational rounded to 53 significant bits, with the exponent not below that of
  the smallest normal double, so that the subnormal numbers are covered.
\<close>

definition round_pos :: "rat \<Rightarrow> rat" where
  "round_pos x = (let u = 2 powi (max (expo x) (- 1022) - 52)
     in of_int (round_half_even (x / u)) * u)"

text \<open>
  The double nearest to a rational, as every correctly rounded operation delivers it: when
  the rounded magnitude is beyond the largest double, the result is an infinity.
\<close>

definition overflow_threshold :: rat where
  "overflow_threshold = 2 ^ 1024"

definition fl :: "rat \<Rightarrow> pyfloat" where
  "fl x = (if x = 0 then Finite 0
     else if 0 < x
     then (if overflow_threshold \<le> round_pos x then PosInf else Finite (round_pos x))
     else (if overflow_threshold \<le> round_pos (- x) then NegInf
           else Finite (- round_pos (- x))))"

fun fl_neg :: "pyfloat \<Rightarrow> pyfloat" where
  "fl_neg (Finite x) = Finite (- x)"
| "fl_neg PosInf = NegInf"
| "fl_neg NegInf = PosInf"
| "fl_neg NotANumber = NotANumber"

fun fl_add :: "pyfloat \<Rightarrow> pyfloat \<Rightarrow> pyfloat" where
  "fl_add (Finite x) (Finite y) = fl (x + y)"
| "fl_add NotANumber b = NotANumber"
| "fl_add a NotANumber = NotANumber"
| "fl_add PosInf NegInf = NotANumber"
| "fl_add NegInf PosInf = NotANumber"
| "fl_add PosInf b = PosInf"
| "fl_add NegInf b = NegInf"
| "fl_add a PosInf = PosInf"
| "fl_add a NegInf = NegInf"

definition fl_sub :: "pyfloat \<Rightarrow> pyfloat \<Rightarrow> pyfloat" where
  "fl_sub a b = fl_add a (fl_neg b)"

text \<open>The sign of a float that is a number: 1, 0 or -1.\<close>

fun fl_sgn :: "pyfloat \<Rightarrow> int" where
  "fl_sgn (Finite x) = (if 0 < x then 1 else if x < 0 then - 1 else 0)"
| "fl_sgn PosInf = 1"
| "fl_sgn NegInf = - 1"
| "fl_sgn NotANumber = 0"

definition signed_inf :: "int \<Rightarrow> pyfloat" where
  "signed_inf sg = (if sg = 0 then NotANumber else if 0 < sg then PosInf else NegInf)"

fun fl_mul :: "pyfloat \<Rightarrow> pyfloat \<Rightarrow> pyfloat" where
  "fl_mul (Finite x) (Finite y) = fl (x * y)"
| "fl_mul NotANumber b = NotANumber"
| "fl_mul a NotANumber = NotANumber"
| "fl_mul a b = signed_inf (fl_sgn a * fl_sgn b)"

text \<open>
  Division by a divisor that is not zero (Python raises \<^verbatim>\<open>ZeroDivisionError\<close> before it
  divides by zero).
\<close>

fun fl_div :: "pyfloat \<Rightarrow> pyfloat \<Rightarrow> pyfloat" where
  "fl_div (Finite x) (Finite y) = fl (x / y)"
| "fl_div NotANumber b = NotANumber"
| "fl_div a NotANumber = NotANumber"
| "fl_div (Finite x) b = Finite 0"
| "fl_div a (Finite y) = signed_inf (fl_sgn a * fl_sgn (Finite y))"
| "fl_div a b = NotANumber"

section \<open>Strings, integers and floats read from text\<close>

fun is_prefix :: "string \<Rightarrow> string \<Rightarrow> bool" where
  "is_prefix [] ys = True"
| "is_prefix (x # xs) [] = False"
| "is_prefix (x # xs) (y # ys) = (x = y \<and> is_prefix xs ys)"

text \<open>\<^verbatim>\<open>sub in s\<close> on strings.\<close>

fun contains :: "string \<Rightarrow> string \<Rightarrow> bool" where
  "contains sub [] = (sub = [])"
| "contains sub (c # cs) = (is_prefix sub (c # cs) \<or> contains sub cs)"

text \<open>
  \<^verbatim>\<open>s.split(sep)\<close> for a non-empty separator: the pieces between the non-overlapping
  occurrences of \<open>sep\<close>, found from the left. \<open>skip\<close> counts the characters of a
  separator just matched that are still to be passed over; \<open>acc\<close> is the current piece,
  reversed.
\<close>

fun split_acc :: "string \<Rightarrow> nat \<Rightarrow> string \<Rightarrow> string \<Rightarrow> string list" where
  "split_acc sep skip acc [] = [rev acc]"
| "split_acc sep (Suc k) acc (c # cs) = split_acc sep k acc cs"
| "split_acc sep 0 acc (c # cs) =
     (if sep \<noteq> [] \<and> is_prefix sep (c # cs)
      then rev acc # split_acc sep (length sep - 1) [] cs
      else split_acc sep 0 (c # acc) cs)"

definition py_split :: "string \<Rightarrow> string \<Rightarrow> string list" where
  "py_split sep s = split_acc sep 0 [] s"

text \<open>
  \<^verbatim>\<open>str.isspace\<close> on the characters below 256: tab to carriage return, the four
  separators 28 to 31, the blank, next-line and the no-break space.
\<close>

definition is_space :: "char \<Rightarrow> bool" where
  "is_space c = (let n = (of_char c :: nat) in
     (9 \<le> n \<and> n \<le> 13) \<or> (28 \<le> n \<and> n \<le> 32) \<or> n = 133 \<or> n = 160)"

text \<open>\<^verbatim>\<open>s.split()\<close>: the maximal runs of characters that are not whitespace.\<close>

fun ws_acc :: "string \<Rightarrow> string \<Rightarrow> string list" where
  "ws_acc acc [] = (if acc = [] then [] else [rev acc])"
| "ws_acc acc (c # cs) =
     (if is_space c then (if acc = [] then ws_acc [] cs else rev acc # ws_acc [] cs)
      else ws_acc (c # acc) cs)"

definition py_split_ws :: "string \<Rightarrow> string list" where
  "py_split_ws s = ws_acc [] s"

text \<open>\<^verbatim>\<open>xs[i]\<close> for a non-negative index; out of range raises \<^verbatim>\<open>IndexError\<close>.\<close>

definition index :: "'a list \<Rightarrow> nat \<Rightarrow> exn + 'a" where
  "index xs i = (if i < length xs then Inr (xs ! i) else Inl IndexError)"

definition is_digit :: "char \<Rightarrow> bool" where
  "is_digit c = (48 \<le> (of_char c :: nat) \<and> (of_char c :: nat) \<le> 57)"

definition digit_val :: "char \<Rightarrow> nat" where
  "digit_val c = (of_char c :: nat) - 48"

text \<open>
  A \<^verbatim>\<open>digitpart\<close> of Python's numeric syntax: decimal digits, where single underscores
  may stand between two digits. \<open>digits_from\<close> runs after a digit has been read; the
  result is the value and the number of digits.
\<close>

fun digits_from :: "nat \<Rightarrow> nat \<Rightarrow> string \<Rightarrow> (nat \<times> nat) option" where
  "digits_from v n [] = Some (v, n)"
| "digits_from v n [c] =
     (if is_digit c then Some (10 * v + digit_val c, Suc n) else None)"
| "digits_from v n (c # d # ds) =
     (if is_digit c then digits_from (10 * v + digit_val c) (Suc n) (d # ds)
      else if c = CHR ''_'' \<and> is_digit d
      then digits_from (10 * v + digit_val d) (Suc n) ds
      else None)"

definition digitpart :: "string \<Rightarrow> (nat \<times> nat) option" where
  "digitpart s = (case s of [] \<Rightarrow> None
     | c # cs \<Rightarrow> if is_digit c then digits_from (digit_val c) 1 cs else None)"

text \<open>An optional sign in front of a token: the sign as a factor, and the rest.\<close>

definition take_sign :: "string \<Rightarrow> int \<times> string" where
  "take_sign s = (case s of [] \<Rightarrow> (1, [])
     | c # cs \<Rightarrow> if c = CHR ''-'' then (- 1, cs)
                else if c = CHR ''+'' then (1, cs) else (1, c # cs))"

text \<open>
  \<^verbatim>\<open>int(s)\<close> in base ten on a token without surrounding whitespace; \<open>None\<close> stands
  for \<^verbatim>\<open>ValueError\<close>.
\<close>

definition py_int :: "string \<Rightarrow> int option" where
  "py_int s = (case take_sign s of (sg, body) \<Rightarrow>
     (case digitpart body of None \<Rightarrow> None | Some (v, n) \<Rightarrow> Some (sg * int v)))"

definition lower :: "char \<Rightarrow> char" where
  "lower c = (let n = (of_char c :: nat) in
     if 65 \<le> n \<and> n \<le> 90 then char_of (n + 32) else c)"

text \<open>The text of a token up to the first exponent letter, and the text after it.\<close>

fun split_exp :: "string \<Rightarrow> string \<Rightarrow> string \<times> string option" where
  "split_exp acc [] = (rev acc, None)"
| "split_exp acc (c # cs) =
     (if c = CHR ''e'' \<or> c = CHR ''E'' then (rev acc, Some cs) else split_exp (c # acc) cs)"

fun split_dot :: "string \<Rightarrow> string \<Rightarrow> string \<times> string option" where
  "split_dot acc [] = (rev acc, None)"
| "split_dot acc (c # cs) =
     (if c = CHR ''.'' then (rev acc, Some cs) else split_dot (c # acc) cs)"

text \<open>
  The \<^verbatim>\<open>number\<close> of the float syntax: \<^verbatim>\<open>[digitpart] "." digitpart | digitpart ["."]\<close>.
\<close>

definition mantissa :: "string \<Rightarrow> rat option" where
  "mantissa s = (case split_dot [] s of
       (ip, None) \<Rightarrow> (case digitpart ip of None \<Rightarrow> None | Some (v, n) \<Rightarrow> Some (of_nat v))
     | (ip, Some fp) \<Rightarrow>
         (if fp = [] then (case digitpart ip of None \<Rightarrow> None | Some (v, n) \<Rightarrow> Some (of_nat v))
          else (case digitpart fp of None \<Rightarrow> None
            | Some (fv, fn) \<Rightarrow>
                (if ip = [] then Some (of_nat fv / 10 ^ fn)
                 else (case digitpart ip of None \<Rightarrow> None
                   | Some (v, n) \<Rightarrow> Some (of_nat v + of_nat fv / 10 ^ fn))))))"

definition exponent :: "string option \<Rightarrow> int option" where
  "exponent e = (case e of None \<Rightarrow> Some 0
     | Some t \<Rightarrow> (case take_sign t of (sg, body) \<Rightarrow>
         (case digitpart body of None \<Rightarrow> None | Some (v, n) \<Rightarrow> Some (sg * int v))))"

definition scale10 :: "rat \<Rightarrow> int \<Rightarrow> rat" where
  "scale10 x e = (if 0 \<le> e then x * 10 ^ nat e else x / 10 ^ nat (- e))"

text \<open>
  \<^verbatim>\<open>float(s)\<close> on a token without surrounding whitespace: an optional sign, then
  \<^verbatim>\<open>inf\<close>, \<^verbatim>\<open>infinity\<close> or \<^verbatim>\<open>nan\<close> in any case, or a decimal number with an optional
  exponent, which is rounded to the nearest double (an infinity when it is too large);
  \<open>None\<close> stands for \<^verbatim>\<open>ValueError\<close>.
\<close>

definition py_float :: "string \<Rightarrow> pyfloat option" where
  "py_float s = (case take_sign s of (sg, body) \<Rightarrow>
     (let low = map lower body in
      if low = ''inf'' \<or> low = ''infinity'' then Some (if 0 < sg then PosInf else NegInf)
      else if low = ''nan'' then Some NotANumber
      else (case split_exp [] body of (m, e) \<Rightarrow>
        (case mantissa m of None \<Rightarrow> None
         | Some mv \<Rightarrow> (case exponent e of None \<Rightarrow> None
             | Some ev \<Rightarrow> Some (fl (of_int sg * scale10 mv ev)))))))"


text \<open>
  \<^verbatim>\<open>int(x)\<close> on a float rounds a finite value towards zero, and raises
  \<^verbatim>\<open>OverflowError\<close> on an infinity and \<^verbatim>\<open>ValueError\<close> on not-a-number.
\<close>

definition py_trunc :: "rat \<Rightarrow> int" where
  "py_trunc x = (if 0 \<le> x then \<lfloor>x\<rfloor> else \<lceil>x\<rceil>)"

definition int_of_float :: "pyfloat \<Rightarrow> exn + int" where
  "int_of_float a = (case a of
       Finite x \<Rightarrow> Inr (py_trunc x)
     | PosInf \<Rightarrow> Inl (OverflowError ''cannot convert float infinity to integer'')
     | NegInf \<Rightarrow> Inl (OverflowError ''cannot convert float infinity to integer'')
     | NotANumber \<Rightarrow> Inl ValueError)"

text \<open>
  The conversion of an integer that meets a float in an arithmetic operation: the nearest
  double, or \<^verbatim>\<open>OverflowError\<close> when there is none.
\<close>

definition float_of_int :: "int \<Rightarrow> exn + pyfloat" where
  "float_of_int k = (case fl (of_int k) of
       Finite x \<Rightarrow> Inr (Finite x)
     | _ \<Rightarrow> Inl (OverflowError ''int too large to convert to float''))"

fun str_nat :: "nat \<Rightarrow> string" where
  "str_nat n = (if n < 10 then [char_of (48 + n)]
     else str_nat (n div 10) @ [char_of (48 + n mod 10)])"

text \<open>\<^verbatim>\<open>str(i)\<close> of an integer, as an f-string renders it.\<close>

definition str_int :: "int \<Rightarrow> string" where
  "str_int i = (if i < 0 then CHR ''-'' # str_nat (nat (- i)) else str_nat (nat i))"

text \<open>
  \<^verbatim>\<open>str(e)\<close> of an exception. Only \<^verbatim>\<open>OverflowError\<close> is ever rendered by the
  converter (see \<open>parse_progress\<close> below).
\<close>

fun str_exn :: "exn \<Rightarrow> string" where
  "str_exn (OverflowError message) = message"
| "str_exn ZeroDivisionError = ''float division by zero''"
| "str_exn IndexError = ''list index out of range''"
| "str_exn ValueError = ''invalid literal''"

section \<open>The progress parser (\<^verbatim>\<open>FFmpegConverter.run\<close>, lines 100 to 120)\<close>

text \<open>
  \<^verbatim>\<open>time_str = line.split("time=")[1].split()[0]\<close>,
  \<^verbatim>\<open>h, m, s = time_str.split(':')\<close> and the three conversions
  \<^verbatim>\<open>int(h)\<close>, \<^verbatim>\<open>int(m)\<close>, \<^verbatim>\<open>float(s)\<close>. Unpacking anything but three pieces
  raises \<^verbatim>\<open>ValueError\<close>.
\<close>

definition time_fields :: "string \<Rightarrow> exn + (int \<times> int \<times> pyfloat)" where
  "time_fields line =
     (case index (py_split ''time='' line) 1 of Inl e \<Rightarrow> Inl e
      | Inr rest \<Rightarrow>
     (case index (py_split_ws rest) 0 of Inl e \<Rightarrow> Inl e
      | Inr time_str \<Rightarrow>
     (case py_split '':'' time_str of
        [h, m, s] \<Rightarrow>
          (case py_int h of None \<Rightarrow> Inl ValueError
           | Some hv \<Rightarrow>
          (case py_int m of None \<Rightarrow> Inl ValueError
           | Some mv \<Rightarrow>
          (case py_float s of None \<Rightarrow> Inl ValueError
           | Some sv \<Rightarrow> Inr (hv, mv, sv))))
      | _ \<Rightarrow> Inl ValueError)))"

text \<open>
  \<^verbatim>\<open>current_seconds = int(h) * 3600 + int(m) * 60 + float(s)\<close>: the integer sum is
  converted to a float, then added to the seconds.
\<close>

definition current_seconds :: "int \<Rightarrow> int \<Rightarrow> pyfloat \<Rightarrow> exn + pyfloat" where
  "current_seconds h m s = (case float_of_int (h * 3600 + m * 60) of
       Inl e \<Rightarrow> Inl e
     | Inr k \<Rightarrow> Inr (fl_add k s))"

text \<open>
  \<^verbatim>\<open>progress = min(int(current_seconds / self.duration * 100), 99)\<close>, in double
  arithmetic. The division raises \<^verbatim>\<open>ZeroDivisionError\<close> on a zero duration whatever the
  dividend is. The duration is a finite double.
\<close>

definition progress_of :: "pyfloat \<Rightarrow> rat \<Rightarrow> exn + int" where
  "progress_of cs duration =
     (if duration = 0 then Inl ZeroDivisionError
      else (case int_of_float (fl_mul (fl_div cs (Finite duration)) (Finite 100)) of
          Inl e \<Rightarrow> Inl e
        | Inr percent \<Rightarrow> Inr (min percent 99)))"

text \<open>
  \<^verbatim>\<open>if progress > 0: eta = elapsed_time * 100 / progress - elapsed_time\<close>,
  \<^verbatim>\<open>else: eta = 0\<close>, in double arithmetic.
\<close>

definition eta_of :: "int \<Rightarrow> pyfloat \<Rightarrow> pyfloat" where
  "eta_of progress elapsed_time =
     (if progress > 0
      then fl_sub (fl_div (fl_mul elapsed_time (Finite 100)) (Finite (of_int progress)))
             elapsed_time
      else Finite 0)"

text \<open>
  The body of the \<^verbatim>\<open>try\<close> block: the pair handed to \<^verbatim>\<open>progress_update.emit\<close>.
  \<^verbatim>\<open>elapsed_time = time.time() - self.start_time\<close> is a difference of two doubles.
\<close>

definition progress_sample :: "string \<Rightarrow> rat \<Rightarrow> rat \<Rightarrow> rat \<Rightarrow> exn + (int \<times> pyfloat)" where
  "progress_sample line duration start_time now =
     (case time_fields line of Inl e \<Rightarrow> Inl e
      | Inr (h, m, s) \<Rightarrow>
     (case current_seconds h m s of Inl e \<Rightarrow> Inl e
      | Inr cs \<Rightarrow>
     (case progress_of cs duration of Inl e \<Rightarrow> Inl e
      | Inr progress \<Rightarrow>
          Inr (progress, eta_of progress (fl_sub (Finite now) (Finite start_time))))))"

datatype outcome = NoSample | Sample int pyfloat | Uncaught exn

text \<open>
  The guard \<^verbatim>\<open>if "time=" in line\<close> and the handler
  \<^verbatim>\<open>except (IndexError, ValueError, ZeroDivisionError): pass\<close> around the body. Any
  other exception leaves the loop.
\<close>

definition parse_progress :: "string \<Rightarrow> rat \<Rightarrow> rat \<Rightarrow> rat \<Rightarrow> outcome" where
  "parse_progress line duration start_time now =
     (if contains ''time='' line
      then (case progress_sample line duration start_time now of
          Inr (progress, eta) \<Rightarrow> Sample progress eta
        | Inl e \<Rightarrow>
            if e = IndexError \<or> e = ValueError \<or> e = ZeroDivisionError then NoSample
            else Uncaught e)
      else NoSample)"


section \<open>The conversion worker (\<^verbatim>\<open>FFmpegConverter\<close>)\<close>

text \<open>The constructor arguments of a converter thread.\<close>

record converter =
  input_file :: string
  output_file :: string
  preset :: string
  format :: string
  use_nvenc :: bool

text \<open>
  The three signals of the worker, with their payloads. The conversion of the percentage
  to the machine integer of the signal is not modelled.
\<close>

datatype signal =
    progress_update int pyfloat
  | conversion_complete string
  | conversion_error string

text \<open>
  What a run of the worker does to the outside, in order: a short synchronous
  \<^verbatim>\<open>subprocess.run\<close> of a command, the call of \<^verbatim>\<open>_get_video_duration\<close>, the
  \<^verbatim>\<open>subprocess.Popen\<close> of the encoder, the reading of one line of its output (appended
  to \<^verbatim>\<open>full_output\<close>), \<^verbatim>\<open>process.wait()\<close>, and the emission of a signal.
\<close>

datatype effect =
    Invoke "string list"
  | DurationProbe
  | Popen "string list"
  | ReadLine string
  | Wait
  | Emit signal

text \<open>
  What the outside answers to one run: whether \<^verbatim>\<open>ffmpeg -version\<close> can be started, the
  value returned by \<^verbatim>\<open>_get_video_duration\<close> (a finite double), the standard output of
  \<^verbatim>\<open>ffmpeg -hide_banner -encoders\<close> and the return code of the test encode (\<open>None\<close>
  when the call raises or times out), the clock at \<^verbatim>\<open>Popen\<close>, the lines the encoder
  prints, each with the clock when the loop handles it, and the encoder's return code.
  The encoder is taken to exit: its output is a finite list.
\<close>

record world =
  ffmpeg_installed :: bool
  video_duration :: rat
  encoders_stdout :: "string option"
  nvenc_test_returncode :: "int option"
  start_time :: rat
  output_lines :: "(string \<times> rat) list"
  returncode :: int

definition encoders_cmd :: "string list" where
  "encoders_cmd = [''ffmpeg'', ''-hide_banner'', ''-encoders'']"

definition nvenc_test_cmd :: "string list" where
  "nvenc_test_cmd = [''ffmpeg'', ''-hide_banner'', ''-y'', ''-f'', ''lavfi'',
     ''-i'', ''color=c=black:s=32x32:r=1:d=1'', ''-c:v'', ''h264_nvenc'', ''-preset'', ''p1'',
     ''-profile:v'', ''baseline'', ''-b:v'', ''250k'', ''-f'', ''null'', ''-'']"

text \<open>
  \<^verbatim>\<open>_is_nvenc_available\<close>: the encoder must be listed and the test encode must return
  0; every exception gives \<^verbatim>\<open>False\<close>. The call of \<^verbatim>\<open>nvidia-smi\<close> in between only
  prints, and its failure is swallowed.
\<close>

definition is_nvenc_available :: "world \<Rightarrow> bool" where
  "is_nvenc_available w = (case encoders_stdout w of None \<Rightarrow> False
     | Some out \<Rightarrow>
         if \<not> contains ''h264_nvenc'' out then False
         else (case nvenc_test_returncode w of None \<Rightarrow> False | Some rc \<Rightarrow> rc = 0))"

text \<open>The subprocesses that \<^verbatim>\<open>_is_nvenc_available\<close> starts on the way.\<close>

definition nvenc_invocations :: "world \<Rightarrow> effect list" where
  "nvenc_invocations w = (case encoders_stdout w of None \<Rightarrow> [Invoke encoders_cmd]
     | Some out \<Rightarrow>
         if \<not> contains ''h264_nvenc'' out then [Invoke encoders_cmd]
         else [Invoke encoders_cmd, Invoke [''nvidia-smi''], Invoke nvenc_test_cmd])"

text \<open>\<^verbatim>\<open>_get_nvenc_preset\<close>: a dictionary lookup with the default \<^verbatim>\<open>p4\<close>.\<close>

definition get_nvenc_preset :: "string \<Rightarrow> string" where
  "get_nvenc_preset standard_preset =
     (if standard_preset = ''veryfast'' then ''p1''
      else if standard_preset = ''medium'' then ''p4''
      else if standard_preset = ''veryslow'' then ''p7''
      else ''p4'')"

text \<open>The command line built in \<^verbatim>\<open>run\<close>, lines 53 to 77.\<close>

definition ffmpeg_cmd :: "string \<Rightarrow> string \<Rightarrow> string \<Rightarrow> bool \<Rightarrow> string list" where
  "ffmpeg_cmd inp outp pre nv =
     [''ffmpeg'', ''-i'', inp]
     @ (if nv
        then [''-c:v'', ''h264_nvenc'', ''-preset'', get_nvenc_preset pre,
              ''-b:v'', ''0'', ''-c:a'', ''aac'']
        else [''-c:v'', ''libx264'', ''-preset'', pre, ''-c:a'', ''aac''])
     @ [''-y'', outp]"

text \<open>
  The loop over \<^verbatim>\<open>process.stdout\<close>. The result is what the loop does, the lines it has
  appended to \<^verbatim>\<open>full_output\<close> and, when an exception leaves it, that exception.
\<close>

fun monitor ::
  "rat \<Rightarrow> rat \<Rightarrow> (string \<times> rat) list \<Rightarrow> effect list \<times> string list \<times> exn option" where
  "monitor duration started [] = ([], [], None)"
| "monitor duration started ((line, now) # rest) =
     (case parse_progress line duration started now of
        NoSample \<Rightarrow>
          (case monitor duration started rest of
             (effs, captured, r) \<Rightarrow> (ReadLine line # effs, line # captured, r))
      | Sample progress eta \<Rightarrow>
          (case monitor duration started rest of
             (effs, captured, r) \<Rightarrow>
               (ReadLine line # Emit (progress_update progress eta) # effs,
                line # captured, r))
      | Uncaught e \<Rightarrow> ([ReadLine line], [line], Some e))"

definition nvenc_signatures :: "string list" where
  "nvenc_signatures = [''NVENC'', ''GPU'', ''Error initializing'', ''CUDA'',
     ''can'' @ [CHR 0x27] @ ''t initialize'']"

text \<open>The message of the failure signal after a non-zero return code, lines 129 to 139.\<close>

definition exit_error_message :: "bool \<Rightarrow> string \<Rightarrow> int \<Rightarrow> string" where
  "exit_error_message nv output_text rc =
     (if nv \<and> list_ex (\<lambda>error. contains error output_text) nvenc_signatures
      then ''NVIDIA encoder error. Try disabling hardware acceleration or update your GPU drivers.''
      else ''Conversion failed with error code '' @ str_int rc)"

definition fallback_notice :: string where
  "fallback_notice = ''NVENC hardware encoding is not available. Using software encoding instead.''"

text \<open>
  \<^verbatim>\<open>FFmpegConverter.run\<close>, in three pieces. \<open>nvenc_used\<close> is the value of
  \<^verbatim>\<open>self.use_nvenc\<close> after line 50; \<open>finish\<close> is the test of the return code (lines 125
  to 139), which classifies the captured \<^verbatim>\<open>full_output\<close>; \<open>encode\<close> is the command, \<^verbatim>\<open>Popen\<close>, the loop and \<^verbatim>\<open>process.wait()\<close> (lines
  52 to 123), with the outer handler \<^verbatim>\<open>except Exception\<close> for an exception that leaves
  the loop; \<open>run\<close> puts the three checks of lines 36 to 50 in front. Exceptions of
  \<^verbatim>\<open>Popen\<close> itself are not modelled.
\<close>

definition nvenc_used :: "world \<Rightarrow> converter \<Rightarrow> bool" where
  "nvenc_used w c = (use_nvenc c \<and> is_nvenc_available w)"

definition finish :: "world \<Rightarrow> converter \<Rightarrow> string list \<Rightarrow> effect list" where
  "finish w c captured =
     (if returncode w = 0
      then [Emit (progress_update 100 (Finite 0)), Emit (conversion_complete (output_file c))]
      else [Emit (conversion_error
              (exit_error_message (nvenc_used w c) (concat captured) (returncode w)))])"

definition encode :: "world \<Rightarrow> converter \<Rightarrow> effect list" where
  "encode w c =
     Popen (ffmpeg_cmd (input_file c) (output_file c) (preset c) (nvenc_used w c))
     # (case monitor (video_duration w) (start_time w) (output_lines w) of
          (effs, captured, Some e) \<Rightarrow>
            effs @ [Emit (conversion_error (''Error during conversion: '' @ str_exn e))]
        | (effs, captured, None) \<Rightarrow> effs @ Wait # finish w c captured)"

definition run :: "world \<Rightarrow> converter \<Rightarrow> effect list" where
  "run w c =
     Invoke [''ffmpeg'', ''-version'']
     # (if \<not> ffmpeg_installed w
        then [Emit (conversion_error ''FFmpeg is not installed. Please install FFmpeg first.'')]
        else DurationProbe
          # (if video_duration w \<le> 0
             then [Emit (conversion_error ''Could not determine video duration.'')]
             else (if use_nvenc c then nvenc_invocations w else [])
               @ (if use_nvenc c \<and> \<not> is_nvenc_available w
                  then [Emit (conversion_error fallback_notice)] else [])
               @ encode w c))"

section \<open>Paths (\<^verbatim>\<open>os.path\<close>, POSIX flavour)\<close>

text \<open>
  The last index at which a character of \<open>seps\<close> stands in the text, or \<open>-1\<close>:
  \<^verbatim>\<open>str.rfind\<close> for a one-character needle, and the larger of two such calls.
\<close>

fun rfind_acc :: "string \<Rightarrow> int \<Rightarrow> int \<Rightarrow> string \<Rightarrow> int" where
  "rfind_acc seps i best [] = best"
| "rfind_acc seps i best (c # cs) = rfind_acc seps (i + 1) (if c \<in> set seps then i else best) cs"

definition rfind :: "string \<Rightarrow> string \<Rightarrow> int" where
  "rfind seps p = rfind_acc seps 0 (- 1) p"

text \<open>
  \<^verbatim>\<open>genericpath._splitext\<close>: the extension starts at the last dot of the last path
  component, unless only dots stand before it in that component.
\<close>

definition splitext_on :: "string \<Rightarrow> string \<Rightarrow> string \<times> string" where
  "splitext_on seps p =
     (let sepIndex = rfind seps p; dotIndex = rfind ''.'' p
      in if dotIndex > sepIndex
            \<and> list_ex (\<lambda>c. c \<noteq> CHR ''.'')
                 (take (nat (dotIndex - (sepIndex + 1))) (drop (nat (sepIndex + 1)) p))
         then (take (nat dotIndex) p, drop (nat dotIndex) p)
         else (p, []))"

definition splitext :: "string \<Rightarrow> string \<times> string" where
  "splitext p = splitext_on ''/'' p"

text \<open>\<^verbatim>\<open>posixpath.basename\<close>: the text after the last slash.\<close>

definition basename :: "string \<Rightarrow> string" where
  "basename p = drop (nat (rfind ''/'' p + 1)) p"

text \<open>\<^verbatim>\<open>posixpath.join\<close> of two components.\<close>

definition path_join :: "string \<Rightarrow> string \<Rightarrow> string" where
  "path_join a b =
     (if is_prefix ''/'' b then b
      else if a = [] \<or> last a = CHR ''/'' then a @ b
      else a @ ''/'' @ b)"

section \<open>The application window (\<^verbatim>\<open>VideoConverterApp\<close>)\<close>

text \<open>
  A converter thread object: its constructor arguments, the state of the thread, what
  remains of its \<^verbatim>\<open>run\<close>, whether the encoder it has opened is still awaited, and
  \<^verbatim>\<open>full_output\<close>. The field \<open>env\<close> is not program state: it fixes what the outside will
  answer to this thread's run.
\<close>

datatype thread_status = NotStarted | Running | Finished | Terminated

record thread =
  conv :: converter
  env :: world
  status :: thread_status
  script :: "effect list"
  process_active :: bool
  full_output :: "string list"

text \<open>The text of the NVENC checkbox, which carries the result of the last detection.\<close>

datatype nvenc_label = Checking | Detected | NotDetected | StatusUnknown

datatype quality = FastLowQuality | MediumQuality | SlowHighQuality

text \<open>
  The message boxes that the two slots for the end of a job open. A message box is modal:
  the call that opens it returns only when the user closes it, and until then the event
  loop goes on delivering queued signals to the slots.
\<close>

datatype dialog = FailedBox | SuccessBox

text \<open>
  The window. \<open>threads\<close> is the store of thread objects; \<open>converter_threads\<close> holds
  references into it, as the Python list holds references to the objects. \<open>events\<close> is
  the queue of signal deliveries posted to the window's event loop, each with the thread
  that emitted it. \<open>dialogs\<close> holds the message boxes that are open, the latest first:
  each stands for a slot that is suspended in the call that opened the box, and a box
  opened later is closed earlier. Of the widgets only those that decide behaviour are
  kept.
\<close>

record app =
  input_files :: "string list"
  output_directory :: "string option"
  format_combo :: string
  preset_combo :: quality
  batch_checkbox :: bool
  nvenc_checkbox :: bool
  nvenc_text :: nvenc_label
  processing_all :: bool
  converter_threads :: "nat list"
  threads :: "thread list"
  events :: "(nat \<times> signal) list"
  dialogs :: "dialog list"
  convert_btn_enabled :: bool
  progress_bar :: int
  last_conversion_output :: string

text \<open>\<^verbatim>\<open>preset_mapping\<close> in \<^verbatim>\<open>start_conversion\<close>.\<close>

fun preset_mapping :: "quality \<Rightarrow> string" where
  "preset_mapping FastLowQuality = ''veryfast''"
| "preset_mapping MediumQuality = ''medium''"
| "preset_mapping SlowHighQuality = ''veryslow''"

text \<open>
  \<^verbatim>\<open>check_nvenc_availability\<close>, run once by the constructor of the window, and
  \<^verbatim>\<open>nvenc_test_completed\<close>, the end of the manual test. The handler of the former for
  an exception is never reached, since \<^verbatim>\<open>_is_nvenc_available\<close> catches every
  exception itself.
\<close>

definition check_nvenc_availability :: "world \<Rightarrow> app \<Rightarrow> app" where
  "check_nvenc_availability w s =
     (if is_nvenc_available w
      then s\<lparr>nvenc_text := Detected, nvenc_checkbox := True\<rparr>
      else s\<lparr>nvenc_text := NotDetected, nvenc_checkbox := False\<rparr>)"

definition nvenc_test_completed :: "bool \<Rightarrow> string \<Rightarrow> app \<Rightarrow> app" where
  "nvenc_test_completed success details s =
     (if success then s\<lparr>nvenc_text := Detected, nvenc_checkbox := True\<rparr>
      else s\<lparr>nvenc_text := NotDetected\<rparr>)\<lparr>last_conversion_output := details\<rparr>"

text \<open>The output path chosen for one input file, lines 765 to 769.\<close>

definition output_path :: "string option \<Rightarrow> string \<Rightarrow> string \<Rightarrow> string" where
  "output_path dir fmt inp =
     (case dir of
        None \<Rightarrow> fst (splitext inp) @ ''.'' @ fmt
      | Some d \<Rightarrow>
          if d = [] then fst (splitext inp) @ ''.'' @ fmt
          else path_join d (fst (splitext (basename inp)) @ ''.'' @ fmt))"

text \<open>The converter created for one input file, lines 772 to 778.\<close>

definition make_converter :: "app \<Rightarrow> string \<Rightarrow> converter" where
  "make_converter s inp =
     \<lparr>input_file = inp,
      output_file = output_path (output_directory s) (format_combo s) inp,
      preset = preset_mapping (preset_combo s),
      format = format_combo s,
      use_nvenc = nvenc_checkbox s\<rparr>"

definition new_thread :: "converter \<Rightarrow> world \<Rightarrow> thread" where
  "new_thread c w =
     \<lparr>conv = c, env = w, status = NotStarted, script = [], process_active = False,
      full_output = []\<rparr>"

text \<open>
  \<^verbatim>\<open>QThread.start\<close>: nothing happens to a thread that is running; any other thread
  begins \<^verbatim>\<open>run\<close>, whose first statement empties \<^verbatim>\<open>full_output\<close>.
\<close>

definition thread_start :: "thread \<Rightarrow> thread" where
  "thread_start t =
     (if status t = Running then t
      else t\<lparr>status := Running, script := run (env t) (conv t), process_active := False,
             full_output := []\<rparr>)"

definition start_thread :: "nat \<Rightarrow> app \<Rightarrow> app" where
  "start_thread i s = s\<lparr>threads := (threads s)[i := thread_start (threads s ! i)]\<rparr>"

definition reset_ui :: "app \<Rightarrow> app" where
  "reset_ui s = s\<lparr>convert_btn_enabled := True\<rparr>"

text \<open>
  \<^verbatim>\<open>start_conversion\<close>. \<open>have_ffmpeg\<close> is the result of the window's own
  \<^verbatim>\<open>_is_ffmpeg_installed\<close>, \<open>continue_anyway\<close> the answer to the question asked when the
  checkbox is ticked although its text says that NVENC was not detected, and \<open>ws k\<close> what
  the outside will answer to the thread of the \<open>k\<close>-th input file. The batch flag is read
  before that question is asked, so it is stored even when the answer is no. The question
  is a modal box as well; the definition gives \<^verbatim>\<open>start_conversion\<close> when no signal is
  delivered while the box is open, which is the case whenever no thread is running and no
  signal is queued when Start is pressed.
\<close>

definition start_conversion :: "bool \<Rightarrow> bool \<Rightarrow> (nat \<Rightarrow> world) \<Rightarrow> app \<Rightarrow> app" where
  "start_conversion have_ffmpeg continue_anyway ws s =
     (if input_files s = [] then s
      else if \<not> have_ffmpeg then s
      else if nvenc_checkbox s \<and> nvenc_text s = NotDetected \<and> \<not> continue_anyway
      then s\<lparr>processing_all := batch_checkbox s\<rparr>
      else
        (let base = length (threads s);
             n = length (input_files s);
             created = map (\<lambda>k. new_thread (make_converter s (input_files s ! k)) (ws k)) [0..<n]
         in start_thread base
              (s\<lparr>processing_all := batch_checkbox s,
                 convert_btn_enabled := False,
                 threads := threads s @ created,
                 converter_threads := [base..<base + n],
                 progress_bar := 0\<rparr>)))"

text \<open>
  \<^verbatim>\<open>cancel_conversion\<close>: \<^verbatim>\<open>terminate\<close> and \<^verbatim>\<open>wait\<close> for every thread of
  \<^verbatim>\<open>converter_threads\<close> that is running, then the list is emptied.
\<close>

definition terminate_running :: "thread \<Rightarrow> thread" where
  "terminate_running t = (if status t = Running then t\<lparr>status := Terminated\<rparr> else t)"

definition cancel_conversion :: "app \<Rightarrow> app" where
  "cancel_conversion s =
     reset_ui
       (s\<lparr>threads := foldl (\<lambda>ts i. ts[i := terminate_running (ts ! i)]) (threads s)
                        (converter_threads s),
          converter_threads := [],
          progress_bar := 0\<rparr>)"

definition update_progress :: "int \<Rightarrow> pyfloat \<Rightarrow> app \<Rightarrow> app" where
  "update_progress v eta_seconds s = s\<lparr>progress_bar := v\<rparr>"

text \<open>
  \<^verbatim>\<open>conversion_completed\<close>: the first thread of the list is removed, whichever thread
  sent the signal; in batch mode the next one is started, and otherwise the controls are
  released and a message box reports the success. Only labels are set after that box is
  closed.
\<close>

definition conversion_completed :: "string \<Rightarrow> app \<Rightarrow> app" where
  "conversion_completed out s =
     (case converter_threads s of
        [] \<Rightarrow> s\<lparr>progress_bar := 100\<rparr>
      | completed # rest \<Rightarrow>
          if processing_all s \<and> rest \<noteq> []
          then start_thread (hd rest) (s\<lparr>converter_threads := rest, progress_bar := 0\<rparr>)
          else (reset_ui (s\<lparr>converter_threads := rest, progress_bar := 100\<rparr>))
                 \<lparr>dialogs := SuccessBox # dialogs s\<rparr>)"

text \<open>
  \<^verbatim>\<open>conversion_failed\<close>, up to the call of \<^verbatim>\<open>QMessageBox.critical\<close> (lines 886 to
  901): the first thread of the list is removed, its output is kept for the log view, and
  the message box is opened.
\<close>

definition conversion_failed :: "string \<Rightarrow> app \<Rightarrow> app" where
  "conversion_failed error_message s =
     (case converter_threads s of
        [] \<Rightarrow> s
      | failed # rest \<Rightarrow>
          s\<lparr>converter_threads := rest,
            last_conversion_output := concat (full_output (threads s ! failed)),
            dialogs := FailedBox # dialogs s\<rparr>)"

text \<open>
  The rest of \<^verbatim>\<open>conversion_failed\<close>, once the message box has been closed (lines 903
  to 917): the list is read again, and in batch mode its first thread is started.
\<close>

definition conversion_failed_resumed :: "app \<Rightarrow> app" where
  "conversion_failed_resumed s =
     (if processing_all s \<and> converter_threads s \<noteq> []
      then start_thread (hd (converter_threads s)) (s\<lparr>progress_bar := 0\<rparr>)
      else reset_ui s)"

fun resume :: "dialog \<Rightarrow> app \<Rightarrow> app" where
  "resume FailedBox s = conversion_failed_resumed s"
| "resume SuccessBox s = s"

fun dispatch :: "signal \<Rightarrow> app \<Rightarrow> app" where
  "dispatch (progress_update v eta_seconds) s = update_progress v eta_seconds s"
| "dispatch (conversion_complete out) s = conversion_completed out s"
| "dispatch (conversion_error error_message) s = conversion_failed error_message s"

section \<open>Threads and the event loop, interleaved\<close>

text \<open>What one effect of a run does to the thread object that performs it.\<close>

fun perform :: "effect \<Rightarrow> thread \<Rightarrow> thread" where
  "perform (Popen cmd) t = t\<lparr>process_active := True\<rparr>"
| "perform Wait t = t\<lparr>process_active := False\<rparr>"
| "perform (ReadLine line) t = t\<lparr>full_output := full_output t @ [line]\<rparr>"
| "perform e t = t"

fun emitted :: "nat \<Rightarrow> effect \<Rightarrow> (nat \<times> signal) list" where
  "emitted i (Emit sig) = [(i, sig)]"
| "emitted i e = []"

text \<open>
  One step of the running thread \<open>i\<close>: its next effect, a signal being queued for the
  window; when nothing remains, \<^verbatim>\<open>run\<close> returns and the thread has finished.
\<close>

definition work :: "nat \<Rightarrow> app \<Rightarrow> app" where
  "work i s =
     (let t = threads s ! i
      in case script t of
           [] \<Rightarrow> s\<lparr>threads := (threads s)[i := t\<lparr>status := Finished\<rparr>]\<rparr>
         | e # es \<Rightarrow>
             s\<lparr>threads := (threads s)[i := (perform e t)\<lparr>script := es\<rparr>],
               events := events s @ emitted i e\<rparr>)"

text \<open>
  The actions of a session once a conversion has been started: a thread takes a step, the
  event loop delivers the oldest queued signal to its slot, the user closes the message
  box on top, whereupon the slot that opened it resumes, or the user presses Cancel
  (possible only while that button is enabled, that is while Start is disabled, and while
  no message box is open).
\<close>

datatype action = Work nat | Deliver | Dismiss | Cancel

fun step :: "action \<Rightarrow> app \<Rightarrow> app" where
  "step (Work i) s =
     (if i < length (threads s) \<and> status (threads s ! i) = Running then work i s else s)"
| "step Deliver s =
     (case events s of [] \<Rightarrow> s | (i, sig) # rest \<Rightarrow> dispatch sig (s\<lparr>events := rest\<rparr>))"
| "step Dismiss s =
     (case dialogs s of [] \<Rightarrow> s | d # rest \<Rightarrow> resume d (s\<lparr>dialogs := rest\<rparr>))"
| "step Cancel s =
     (if convert_btn_enabled s then s
      else (case dialogs s of [] \<Rightarrow> cancel_conversion s | d # rest \<Rightarrow> s))"

fun exec :: "action list \<Rightarrow> app \<Rightarrow> app" where
  "exec [] s = s"
| "exec (a # as) s = exec as (step a s)"

text \<open>A thread whose encoder has been opened and is not yet awaited.\<close>

definition converting :: "thread \<Rightarrow> bool" where
  "converting t = (status t = Running \<and> process_active t)"

definition running_jobs :: "app \<Rightarrow> nat list" where
  "running_jobs s = filter (\<lambda>i. converting (threads s ! i)) [0..<length (threads s)]"

text \<open>
  Nothing can move: no thread is running, no signal waits for delivery and no message box
  is open.
\<close>

definition quiescent :: "app \<Rightarrow> bool" where
  "quiescent s = (events s = [] \<and> dialogs s = []
     \<and> list_all (\<lambda>t. status t \<noteq> Running) (threads s))"

text \<open>The window as its constructor leaves it, before the NVENC detection.\<close>

definition init_app :: app where
  "init_app =
     \<lparr>input_files = [], output_directory = None, format_combo = ''mp4'',
      preset_combo = MediumQuality, batch_checkbox = True, nvenc_checkbox = False,
      nvenc_text = Checking, processing_all = False, converter_threads = [], threads = [],
      events = [], dialogs = [], convert_btn_enabled = True, progress_bar = 0,
      last_conversion_output = []\<rparr>"

text \<open>The percentages of the progress signals among some effects, in order.\<close>

fun percents :: "effect list \<Rightarrow> int list" where
  "percents [] = []"
| "percents (Emit (progress_update v eta_seconds) # es) = v # percents es"
| "percents (e # es) = percents es"

section \<open>The progress formula as the specification words it\<close>

text \<open>
  \<open>percent = clamp(floor(currentSeconds / duration * 100), 0, 99)\<close> with
  \<open>currentSeconds = h * 3600 + m * 60 + s\<close>, and \<open>eta = elapsedWall * 100 / percent -
  elapsedWall\<close> when the percentage is positive, else 0. The arithmetic is that of doubles,
  each operation rounded; the formula is given for the case that every value in it is
  finite, the fields \<open>h\<close> and \<open>m\<close> being integers and \<open>s\<close> a double.
\<close>

definition spec_seconds :: "int \<Rightarrow> int \<Rightarrow> rat \<Rightarrow> pyfloat" where
  "spec_seconds h m s = fl_add (fl (of_int (h * 3600 + m * 60))) (Finite s)"

definition spec_ratio :: "int \<Rightarrow> int \<Rightarrow> rat \<Rightarrow> rat \<Rightarrow> pyfloat" where
  "spec_ratio h m s duration =
     fl_mul (fl_div (spec_seconds h m s) (Finite duration)) (Finite 100)"

definition spec_percent :: "rat \<Rightarrow> int" where
  "spec_percent v = max 0 (min 99 \<lfloor>v\<rfloor>)"

definition spec_eta :: "int \<Rightarrow> pyfloat \<Rightarrow> pyfloat" where
  "spec_eta percent elapsedWall =
     (if percent > 0
      then fl_sub (fl_div (fl_mul elapsedWall (Finite 100)) (Finite (of_int percent)))
             elapsedWall
      else Finite 0)"

section \<open>Notions used to state the properties\<close>

text \<open>
  The loop over the encoder's output runs to its end, so that \<^verbatim>\<open>process.wait()\<close> and
  the test of the return code are reached.
\<close>

definition reaches_exit :: "world \<Rightarrow> bool" where
  "reaches_exit w =
     (snd (snd (monitor (video_duration w) (start_time w) (output_lines w))) = None)"

text \<open>
  The elapsed media time that a line reports: the value of \<^verbatim>\<open>current_seconds\<close> that
  the loop computes from it, when that is a finite double.
\<close>

definition media_time :: "string \<Rightarrow> rat option" where
  "media_time line = (case time_fields line of
       Inr (h, m, s) \<Rightarrow>
         (case current_seconds h m s of Inr (Finite x) \<Rightarrow> Some x | _ \<Rightarrow> None)
     | _ \<Rightarrow> None)"

definition nvenc_error_message :: string where
  "nvenc_error_message =
     ''NVIDIA encoder error. Try disabling hardware acceleration or update your GPU drivers.''"


text \<open>The short synchronous subprocess calls among some effects.\<close>

fun is_invoke :: "effect \<Rightarrow> bool" where
  "is_invoke (Invoke cmd) = True"
| "is_invoke e = False"

text \<open>
  A thread that has been started is somewhere in the run of its own converter: what
  remains of its script is the rest of that run.
\<close>

definition own_script :: "thread \<Rightarrow> bool" where
  "own_script t = (status t = NotStarted \<or> suffix (script t) (run (env t) (conv t)))"
section \<open>Rounding to a double is monotone\<close>

lemma two_powi_pos: "0 < (2::rat) powi e"
  by (simp add: power_int_def)

lemma two_powi_nat: "0 \<le> e \<Longrightarrow> (2::rat) powi e = of_int (2 ^ nat e)"
  by (simp add: power_int_def)

lemma two_powi_mono: "a \<le> b \<Longrightarrow> (2::rat) powi a \<le> 2 powi b"
  by (rule power_int_increasing) simp_all

lemma bitlen_pos: assumes "0 < n" shows "0 < bitlen n"
proof (rule ccontr)
  assume "\<not> 0 < bitlen n"
  then have "nat (bitlen n) = 0" by simp
  with bitlen_bounds [OF assms] show False using assms by simp
qed

lemma two_powi_53: "(2::rat) powi (e + 1) = of_int (2 ^ 53) * 2 powi (e - 52)"
proof -
  have "e + 1 = 53 + (e - 52)" by simp
  then have "(2::rat) powi (e + 1) = 2 powi (53 + (e - 52))" by (rule arg_cong)
  also have "\<dots> = 2 powi 53 * 2 powi (e - 52)" by (rule power_int_add) simp
  also have "(2::rat) powi 53 = of_int (2 ^ 53)" by (simp add: power_int_def)
  finally show ?thesis .
qed

lemma two_powi_52: "(2::rat) powi e = of_int (2 ^ 52) * 2 powi (e - 52)"
proof -
  have "e = 52 + (e - 52)" by simp
  then have "(2::rat) powi e = 2 powi (52 + (e - 52))" by (rule arg_cong)
  also have "\<dots> = 2 powi 52 * 2 powi (e - 52)" by (rule power_int_add) simp
  also have "(2::rat) powi 52 = of_int (2 ^ 52)" by (simp add: power_int_def)
  finally show ?thesis .
qed

lemma expo_lower: assumes "0 < x" shows "2 powi (expo x) \<le> x"
proof (cases "1 \<le> x")
  case True
  define n where "n = \<lfloor>x\<rfloor>"
  have n: "0 < n" using True by (simp add: n_def)
  from bitlen_bounds [OF n] have b: "2 ^ nat (bitlen n - 1) \<le> n" by simp
  have e: "expo x = bitlen n - 1" using True by (simp add: expo_def n_def)
  have "0 \<le> bitlen n - 1" using bitlen_pos [OF n] by simp
  then have "(2::rat) powi (expo x) = of_int (2 ^ nat (bitlen n - 1))"
    unfolding e by (rule two_powi_nat)
  also have "\<dots> \<le> of_int n" using b by (simp only: of_int_le_iff)
  also have "\<dots> \<le> x" by (simp add: n_def)
  finally show ?thesis .
next
  case False
  define k where "k = \<lceil>1 / x\<rceil> - 1"
  have y: "1 < 1 / x" using False assms by simp
  then have k: "0 < k" unfolding k_def by linarith
  from bitlen_bounds [OF k] have b: "k < 2 ^ nat (bitlen k)" by simp
  have e: "expo x = - bitlen k" using False by (simp add: expo_def k_def)
  have c: "0 < bitlen k" using k by (rule bitlen_pos)
  have "k + 1 \<le> 2 ^ nat (bitlen k)" using b by simp
  then have "(of_int (k + 1) :: rat) \<le> of_int (2 ^ nat (bitlen k))" by (simp only: of_int_le_iff)
  moreover have "1 / x \<le> of_int (k + 1)" unfolding k_def by simp
  ultimately have "1 / x \<le> 2 ^ nat (bitlen k)" by simp
  then have "1 / 2 ^ nat (bitlen k) \<le> x" using assms
    by (simp add: field_simps)
  moreover have "(2::rat) powi (expo x) = 1 / 2 ^ nat (bitlen k)"
    unfolding e using c by (simp add: power_int_def field_simps)
  ultimately show ?thesis by simp
qed

lemma expo_upper: assumes "0 < x" shows "x < 2 powi (expo x + 1)"
proof (cases "1 \<le> x")
  case True
  define n where "n = \<lfloor>x\<rfloor>"
  have n: "0 < n" using True by (simp add: n_def)
  from bitlen_bounds [OF n] have b: "n < 2 ^ nat (bitlen n)" by simp
  have e: "expo x = bitlen n - 1" using True by (simp add: expo_def n_def)
  have "0 \<le> bitlen n" using bitlen_pos [OF n] by simp
  then have p: "(2::rat) powi (expo x + 1) = of_int (2 ^ nat (bitlen n))"
    unfolding e by (simp add: two_powi_nat)
  have "n + 1 \<le> 2 ^ nat (bitlen n)" using b by simp
  then have "(of_int (n + 1) :: rat) \<le> of_int (2 ^ nat (bitlen n))" by (simp only: of_int_le_iff)
  moreover have "x < of_int (n + 1)" unfolding n_def by linarith
  ultimately show ?thesis unfolding p by simp
next
  case False
  define k where "k = \<lceil>1 / x\<rceil> - 1"
  have y: "1 < 1 / x" using False assms by simp
  then have k: "0 < k" unfolding k_def by linarith
  from bitlen_bounds [OF k] have b: "2 ^ nat (bitlen k - 1) \<le> k" by simp
  have e: "expo x = - bitlen k" using False by (simp add: expo_def k_def)
  have c: "0 < bitlen k" using k by (rule bitlen_pos)
  have "(of_int (2 ^ nat (bitlen k - 1)) :: rat) \<le> of_int k" using b by (simp only: of_int_le_iff)
  also have "\<dots> < 1 / x" unfolding k_def by linarith
  finally have "2 ^ nat (bitlen k - 1) < 1 / x" by simp
  then have "x < 1 / 2 ^ nat (bitlen k - 1)" using assms
    by (simp add: field_simps)
  moreover have "(2::rat) powi (expo x + 1) = 1 / 2 ^ nat (bitlen k - 1)"
  proof -
    define j where "j = bitlen k - 1"
    have "expo x + 1 = - j" unfolding e j_def by simp
    moreover have "0 \<le> j" using c unfolding j_def by simp
    ultimately have "(2::rat) powi (expo x + 1) = 1 / 2 ^ nat j"
      by (simp add: power_int_def field_simps)
    then show ?thesis unfolding j_def .
  qed
  ultimately show ?thesis by simp
qed

lemma expo_mono: assumes "0 < x" "x \<le> y" shows "expo x \<le> expo y"
proof (rule ccontr)
  assume "\<not> expo x \<le> expo y"
  then have "expo y + 1 \<le> expo x" by simp
  then have "(2::rat) powi (expo y + 1) \<le> 2 powi (expo x)" by (rule two_powi_mono)
  also have "\<dots> \<le> x" using assms(1) by (rule expo_lower)
  also have "\<dots> \<le> y" by fact
  also have "\<dots> < 2 powi (expo y + 1)" using assms by (intro expo_upper) simp
  finally show False by simp
qed

lemma round_half_even_of_int: "round_half_even (of_int n) = n"
  by (simp add: round_half_even_def)

lemma round_half_even_bounds: "\<lfloor>r\<rfloor> \<le> round_half_even r" "round_half_even r \<le> \<lfloor>r\<rfloor> + 1"
  by (simp_all add: round_half_even_def Let_def)

lemma round_half_even_mono: assumes "r \<le> s" shows "round_half_even r \<le> round_half_even s"
proof (cases "\<lfloor>r\<rfloor> = \<lfloor>s\<rfloor>")
  case True
  have "r - of_int \<lfloor>r\<rfloor> \<le> s - of_int \<lfloor>s\<rfloor>" using assms True by simp
  then show ?thesis unfolding round_half_even_def Let_def True by auto
next
  case False
  have "\<lfloor>r\<rfloor> \<le> \<lfloor>s\<rfloor>" using assms by (rule floor_mono)
  then have "\<lfloor>r\<rfloor> + 1 \<le> \<lfloor>s\<rfloor>" using False by simp
  then show ?thesis using round_half_even_bounds(2) [of r] round_half_even_bounds(1) [of s]
    by linarith
qed

lemma round_pos_nonneg: "0 \<le> x \<Longrightarrow> 0 \<le> round_pos x"
proof -
  assume x: "0 \<le> x"
  define u :: rat where "u = 2 powi (max (expo x) (- 1022) - 52)"
  have u: "0 < u" unfolding u_def by (rule two_powi_pos)
  have "0 \<le> x / u" using x u by simp
  then have "round_half_even (of_int 0) \<le> round_half_even (x / u)"
    by (intro round_half_even_mono) simp
  then have "0 \<le> round_half_even (x / u)" by (simp only: round_half_even_of_int)
  then show ?thesis unfolding round_pos_def Let_def u_def [symmetric] using u by simp
qed

lemma round_pos_mono: assumes "0 < x" "x \<le> y" shows "round_pos x \<le> round_pos y"
proof -
  define ex where "ex = max (expo x) (- 1022)"
  define ey where "ey = max (expo y) (- 1022)"
  define ux :: rat where "ux = 2 powi (ex - 52)"
  define uy :: rat where "uy = 2 powi (ey - 52)"
  have y: "0 < y" using assms by simp
  have ux: "0 < ux" and uy: "0 < uy" unfolding ux_def uy_def by (rule two_powi_pos)+
  have rx: "round_pos x = of_int (round_half_even (x / ux)) * ux"
    unfolding round_pos_def Let_def ux_def ex_def ..
  have ry: "round_pos y = of_int (round_half_even (y / uy)) * uy"
    unfolding round_pos_def Let_def uy_def ey_def ..
  have le: "ex \<le> ey" unfolding ex_def ey_def using expo_mono [OF assms] by simp
  show ?thesis
  proof (cases "ex = ey")
    case True
    then have "ux = uy" unfolding ux_def uy_def by simp
    moreover have "x / uy \<le> y / uy" using assms uy by (simp add: divide_right_mono)
    then have "round_half_even (x / uy) \<le> round_half_even (y / uy)"
      by (rule round_half_even_mono)
    ultimately show ?thesis unfolding rx ry using uy by simp
  next
    case False
    then have lt: "ex + 1 \<le> ey" using le by simp
    then have eyy: "ey = expo y" unfolding ey_def ex_def by simp
    have "x < 2 powi (expo x + 1)" using assms(1) by (rule expo_upper)
    also have "\<dots> \<le> 2 powi (ex + 1)" unfolding ex_def by (rule two_powi_mono) simp
    finally have "x < 2 powi (ex + 1)" .
    then have "x < of_int (2 ^ 53) * ux" unfolding ux_def by (simp only: two_powi_53)
    then have "x / ux \<le> of_int (2 ^ 53)" using ux by (simp add: field_simps)
    then have "round_half_even (x / ux) \<le> round_half_even (of_int (2 ^ 53))"
      by (rule round_half_even_mono)
    then have "round_half_even (x / ux) \<le> 2 ^ 53" by (simp only: round_half_even_of_int)
    then have "(of_int (round_half_even (x / ux)) :: rat) \<le> of_int (2 ^ 53)"
      by (simp only: of_int_le_iff)
    then have "round_pos x \<le> of_int (2 ^ 53) * ux" unfolding rx using ux
      by (intro mult_right_mono) simp_all
    also have "\<dots> = 2 powi (ex + 1)" unfolding ux_def by (simp only: two_powi_53)
    also have "\<dots> \<le> 2 powi ey" using lt by (rule two_powi_mono)
    finally have a: "round_pos x \<le> 2 powi ey" .
    have "(2::rat) powi ey \<le> y" unfolding eyy using y by (rule expo_lower)
    then have "of_int (2 ^ 52) * uy \<le> y" unfolding uy_def by (simp only: two_powi_52 [of ey])
    then have "of_int (2 ^ 52) \<le> y / uy" using uy by (simp add: field_simps)
    then have "round_half_even (of_int (2 ^ 52)) \<le> round_half_even (y / uy)"
      by (rule round_half_even_mono)
    then have "2 ^ 52 \<le> round_half_even (y / uy)" by (simp only: round_half_even_of_int)
    then have "(of_int (2 ^ 52) :: rat) \<le> of_int (round_half_even (y / uy))"
      by (simp only: of_int_le_iff)
    then have "of_int (2 ^ 52) * uy \<le> round_pos y" unfolding ry using uy
      by (intro mult_right_mono) simp_all
    moreover have "of_int (2 ^ 52) * uy = 2 powi ey" unfolding uy_def
      by (simp only: two_powi_52 [of ey])
    ultimately have "2 powi ey \<le> round_pos y" by simp
    with a show ?thesis by simp
  qed
qed

lemma fl_mono:
  assumes "x \<le> y" "fl x = Finite a" "fl y = Finite b"
  shows "a \<le> b"
proof -
  consider "x = 0 \<or> y = 0" | "0 < x" | "y < 0" | "x < 0" "0 < y" using assms(1) by linarith
  then show ?thesis
  proof cases
    case 1
    then show ?thesis
    proof
      assume "x = 0"
      then have "a = 0" and "0 \<le> y" using assms by (simp_all add: fl_def)
      then show ?thesis using assms(3) round_pos_nonneg [of y]
        by (auto simp: fl_def split: if_splits)
    next
      assume "y = 0"
      then have "b = 0" and "x \<le> 0" using assms by (simp_all add: fl_def)
      then show ?thesis using assms(2) round_pos_nonneg [of "- x"]
        by (auto simp: fl_def split: if_splits)
    qed
  next
    case 2
    then have "a = round_pos x" "b = round_pos y" using assms
      by (auto simp: fl_def split: if_splits)
    then show ?thesis using round_pos_mono [OF 2 assms(1)] by simp
  next
    case 3
    then have "a = - round_pos (- x)" "b = - round_pos (- y)" using assms
      by (auto simp: fl_def split: if_splits)
    then show ?thesis using round_pos_mono [of "- y" "- x"] 3 assms(1) by simp
  next
    case 4
    then have "a = - round_pos (- x)" "b = round_pos y" using assms
      by (auto simp: fl_def split: if_splits)
    then show ?thesis using round_pos_nonneg [of "- x"] round_pos_nonneg [of y] 4 by simp
  qed
qed

lemma fl_nonneg: "0 \<le> x \<Longrightarrow> fl x = Finite a \<Longrightarrow> 0 \<le> a"
  using round_pos_nonneg [of x] by (auto simp: fl_def split: if_splits)

section \<open>Computing the double nearest to a given rational\<close>

lemma expo_unique:
  assumes "0 < x" "2 powi e \<le> x" "x < 2 powi (e + 1)"
  shows "expo x = e"
proof (rule ccontr)
  assume "expo x \<noteq> e"
  then consider "expo x + 1 \<le> e" | "e + 1 \<le> expo x" by linarith
  then show False
  proof cases
    case 1
    have "x < 2 powi (expo x + 1)" using assms(1) by (rule expo_upper)
    also have "\<dots> \<le> 2 powi e" using 1 by (rule two_powi_mono)
    also have "\<dots> \<le> x" by fact
    finally show False by simp
  next
    case 2
    have "x < 2 powi (e + 1)" by fact
    also have "\<dots> \<le> 2 powi (expo x)" using 2 by (rule two_powi_mono)
    also have "\<dots> \<le> x" using assms(1) by (rule expo_lower)
    finally show False by simp
  qed
qed

lemma round_half_even_nearest:
  assumes "of_int n - 1 / 2 < r" "r < of_int n + 1 / 2"
  shows "round_half_even r = n"
proof -
  have "of_int \<lfloor>r\<rfloor> \<le> r" "r < of_int \<lfloor>r\<rfloor> + 1" by linarith+
  with assms show ?thesis unfolding round_half_even_def Let_def
    by (auto; linarith)
qed

lemma fl_normal:
  assumes "0 < x" "- 1022 \<le> e" "e \<le> 1022" "2 powi e \<le> x" "x < 2 powi (e + 1)"
  shows "fl x = Finite (of_int (round_half_even (x / 2 powi (e - 52))) * 2 powi (e - 52))"
proof -
  define u :: rat where "u = 2 powi (e - 52)"
  have u: "0 < u" unfolding u_def by (rule two_powi_pos)
  have ex: "expo x = e" using assms(1,4,5) by (rule expo_unique)
  have r: "round_pos x = of_int (round_half_even (x / u)) * u"
    unfolding round_pos_def Let_def ex u_def using assms(2) by simp
  have "x < of_int (2 ^ 53) * u" using assms(5) unfolding u_def by (simp only: two_powi_53)
  then have "x / u \<le> of_int (2 ^ 53)" using u by (simp add: field_simps)
  then have "round_half_even (x / u) \<le> round_half_even (of_int (2 ^ 53))"
    by (rule round_half_even_mono)
  then have "round_half_even (x / u) \<le> 2 ^ 53" by (simp only: round_half_even_of_int)
  then have "(of_int (round_half_even (x / u)) :: rat) \<le> of_int (2 ^ 53)"
    by (simp only: of_int_le_iff)
  then have "round_pos x \<le> of_int (2 ^ 53) * u" unfolding r using u
    by (intro mult_right_mono) simp_all
  also have "\<dots> = 2 powi (e + 1)" unfolding u_def by (simp only: two_powi_53)
  also have "\<dots> \<le> 2 powi 1023" using assms(3) by (intro two_powi_mono) simp
  also have "\<dots> < 2 powi 1024" by (rule power_int_strict_increasing) simp_all
  also have "(2::rat) powi 1024 = 2 ^ 1024" by (simp add: power_int_def)
  finally have "\<not> overflow_threshold \<le> round_pos x" by (simp add: overflow_threshold_def)
  then show ?thesis using assms(1) unfolding r u_def by (simp add: fl_def r u_def)
qed

lemma fl_nearest:
  assumes "0 < x" "- 1022 \<le> e" "e \<le> 1022" "2 powi e \<le> x" "x < 2 powi (e + 1)"
    and "(of_int n - 1 / 2) * 2 powi (e - 52) < x" "x < (of_int n + 1 / 2) * 2 powi (e - 52)"
  shows "fl x = Finite (of_int n * 2 powi (e - 52))"
proof -
  have u: "0 < (2::rat) powi (e - 52)" by (rule two_powi_pos)
  have "of_int n - 1 / 2 < x / 2 powi (e - 52)" "x / 2 powi (e - 52) < of_int n + 1 / 2"
    using assms(6,7) u by (simp_all add: field_simps)
  then have "round_half_even (x / 2 powi (e - 52)) = n" by (rule round_half_even_nearest)
  with fl_normal [OF assms(1-5)] show ?thesis by simp
qed

lemma fl_exact:
  assumes "0 < x" "- 1022 \<le> e" "e \<le> 1022" "2 powi e \<le> x" "x < 2 powi (e + 1)"
    and "x = of_int n * 2 powi (e - 52)"
  shows "fl x = Finite x"
proof -
  have u: "0 < (2::rat) powi (e - 52)" by (rule two_powi_pos)
  have "x / 2 powi (e - 52) = of_int n" using assms(6) u by simp
  then have "round_half_even (x / 2 powi (e - 52)) = n" by (simp only: round_half_even_of_int)
  with fl_normal [OF assms(1-5)] assms(6) show ?thesis by simp
qed

lemma fl_minus: "fl (- x) = fl_neg (fl x)"
  by (simp add: fl_def)

lemma fl_zero: "fl 0 = Finite 0"
  by (simp add: fl_def)

lemma fl_of_int_pos:
  assumes "0 < k" "k < 2 ^ 53"
  shows "fl (of_int k) = Finite (of_int k)"
proof -
  define e where "e = bitlen k - 1"
  define j where "j = nat (52 - e)"
  have b: "2 ^ nat (bitlen k - 1) \<le> k" "k < 2 ^ nat (bitlen k)"
    using bitlen_bounds [OF assms(1)] by simp_all
  have e0: "0 \<le> e" using bitlen_pos [OF assms(1)] unfolding e_def by simp
  have "(2::int) ^ nat e \<le> k" using b(1) unfolding e_def .
  then have "(2::int) ^ nat e < 2 ^ 53" using assms(2) by (rule le_less_trans)
  then have "nat e < 53" by (rule power_less_imp_less_exp [rotated]) simp
  then have e52: "e \<le> 52" by simp
  have lo: "(2::rat) powi e \<le> of_int k"
  proof -
    have "(2::rat) powi e = of_int (2 ^ nat e)" using e0 by (rule two_powi_nat)
    also have "\<dots> \<le> of_int k" using b(1) unfolding e_def by (simp only: of_int_le_iff)
    finally show ?thesis .
  qed
  have hi: "of_int k < (2::rat) powi (e + 1)"
  proof -
    have n: "nat (e + 1) = nat (bitlen k)" unfolding e_def by simp
    have "0 \<le> e + 1" using e0 by simp
    then have "(2::rat) powi (e + 1) = of_int (2 ^ nat (e + 1))" by (rule two_powi_nat)
    moreover have "(of_int k :: rat) < of_int (2 ^ nat (bitlen k))"
      using b(2) by (simp only: of_int_less_iff)
    ultimately show ?thesis unfolding n by (simp only:)
  qed
  have "(2::rat) powi (52 - e) * 2 powi (e - 52) = 2 powi ((52 - e) + (e - 52))"
    by (rule power_int_add [symmetric]) simp
  also have "(52 - e) + (e - 52) = 0" by simp
  finally have one: "(2::rat) powi (52 - e) * 2 powi (e - 52) = 1" by (simp only: power_int_0_right)
  have "0 \<le> 52 - e" using e52 by simp
  then have p: "(2::rat) powi (52 - e) = of_int (2 ^ j)" unfolding j_def by (rule two_powi_nat)
  have "of_int (k * 2 ^ j) * (2::rat) powi (e - 52)
      = of_int k * (of_int (2 ^ j) * 2 powi (e - 52))"
    by (simp only: of_int_mult mult.assoc)
  also have "\<dots> = of_int k * 1" unfolding p [symmetric] one ..
  finally have x: "(of_int k :: rat) = of_int (k * 2 ^ j) * 2 powi (e - 52)"
    by (simp only: mult_1_right)
  have r: "- 1022 \<le> e" "e \<le> 1022" using e0 e52 by simp_all
  have k: "0 < (of_int k :: rat)" using assms(1) by simp
  show ?thesis using k r lo hi x by (rule fl_exact)
qed

lemma fl_of_int:
  assumes "\<bar>k\<bar> < 2 ^ 53"
  shows "fl (of_int k) = Finite (of_int k)"
proof -
  consider "k = 0" | "0 < k" | "k < 0" by linarith
  then show ?thesis
  proof cases
    case 1
    then show ?thesis by (simp add: fl_zero)
  next
    case 2
    with assms show ?thesis by (intro fl_of_int_pos) simp_all
  next
    case 3
    with assms have "fl (of_int (- k)) = Finite (of_int (- k))" by (intro fl_of_int_pos) simp_all
    then have "fl (- of_int k) = Finite (- of_int k)" by simp
    then show ?thesis unfolding fl_minus by (cases "fl (of_int k)") simp_all
  qed
qed

lemma fl_numeral:
  "(numeral n :: int) < 2 ^ 53 \<Longrightarrow> fl (numeral n) = Finite (numeral n)"
  using fl_of_int [of "numeral n"] by simp

lemma fl_neg_numeral:
  "(numeral n :: int) < 2 ^ 53 \<Longrightarrow> fl (- numeral n) = Finite (- numeral n)"
  using fl_of_int [of "- numeral n"] by simp

lemma fl_one: "fl 1 = Finite 1"
  using fl_of_int [of 1] by simp

section \<open>A double is its own rounding\<close>

lemma round_pos_zero: "round_pos 0 = 0"
  by (simp add: round_pos_def round_half_even_def)

lemma round_pos_of_int:
  assumes "0 < a" "a = of_int k * 2 powi (max (expo a) (- 1022) - 52)"
  shows "round_pos a = a"
proof -
  define u :: rat where "u = 2 powi (max (expo a) (- 1022) - 52)"
  have u: "0 < u" unfolding u_def by (rule two_powi_pos)
  have au: "a = of_int k * u" using assms(2) unfolding u_def .
  then have "a / u = (of_int k * u) / u" by (rule arg_cong)
  also have "\<dots> = of_int k" using u by simp
  finally have "round_half_even (a / u) = k" by (simp only: round_half_even_of_int)
  then have "of_int (round_half_even (a / u)) * u = a" unfolding au [symmetric] by (simp only: au)
  then show ?thesis unfolding round_pos_def Let_def u_def .
qed

lemma round_pos_idem:
  assumes "0 < x"
  shows "round_pos (round_pos x) = round_pos x"
proof -
  define E where "E = max (expo x) (- 1022)"
  define u :: rat where "u = 2 powi (E - 52)"
  define n where "n = round_half_even (x / u)"
  define a where "a = round_pos x"
  have u: "0 < u" unfolding u_def by (rule two_powi_pos)
  have a: "a = of_int n * u" unfolding a_def round_pos_def Let_def n_def u_def E_def ..
  have E: "- 1022 \<le> E" unfolding E_def by simp
  have lo: "(2::rat) powi E = of_int (2 ^ 52) * u" unfolding u_def by (rule two_powi_52)
  have hi: "(2::rat) powi (E + 1) = of_int (2 ^ 53) * u" unfolding u_def by (rule two_powi_53)
  have "0 \<le> x / u" using assms u by simp
  then have "round_half_even (of_int 0) \<le> round_half_even (x / u)"
    by (intro round_half_even_mono) simp
  then have n0: "0 \<le> n" unfolding n_def by (simp only: round_half_even_of_int)
  have "x < 2 powi (expo x + 1)" using assms by (rule expo_upper)
  also have "\<dots> \<le> 2 powi (E + 1)" unfolding E_def by (rule two_powi_mono) simp
  finally have "x < of_int (2 ^ 53) * u" unfolding hi .
  then have "x / u \<le> of_int (2 ^ 53)" using u by (simp add: field_simps)
  then have "round_half_even (x / u) \<le> round_half_even (of_int (2 ^ 53))"
    by (rule round_half_even_mono)
  then have n53: "n \<le> 2 ^ 53" unfolding n_def by (simp only: round_half_even_of_int)
  consider "n = 0" | "n = 2 ^ 53" | "2 ^ 52 \<le> n" "n < 2 ^ 53" | "0 < n" "n < 2 ^ 52"
    using n0 n53 by linarith
  then have "round_pos a = a"
  proof cases
    case 1
    then show ?thesis unfolding a by (simp add: round_pos_zero)
  next
    case 2
    then have av: "a = 2 powi (E + 1)" unfolding a hi by simp
    have pos: "0 < a" unfolding av by (rule two_powi_pos)
    have "a < 2 powi (E + 1 + 1)" unfolding av by (rule power_int_strict_increasing) simp_all
    with pos have ex: "expo a = E + 1" by (intro expo_unique) (simp_all add: av)
    have "a = of_int (2 ^ 52) * 2 powi (E + 1 - 52)" unfolding av by (rule two_powi_52)
    moreover have "max (expo a) (- 1022) = E + 1" unfolding ex using E by simp
    ultimately show ?thesis using pos by (intro round_pos_of_int [where k = "2 ^ 52"]) simp_all
  next
    case 3
    have "(of_int (2 ^ 52) :: rat) \<le> of_int n" using 3(1) by (simp only: of_int_le_iff)
    then have l: "2 powi E \<le> a" unfolding lo a using u by (intro mult_right_mono) simp_all
    have "(of_int n :: rat) < of_int (2 ^ 53)" using 3(2) by (simp only: of_int_less_iff)
    then have h: "a < 2 powi (E + 1)" unfolding hi a using u by (intro mult_strict_right_mono)
    have "0 < (2::rat) powi E" by (rule two_powi_pos)
    then have pos: "0 < a" using l by (rule less_le_trans)
    from pos l h have ex: "expo a = E" by (rule expo_unique)
    have "max (expo a) (- 1022) = E" unfolding ex using E by simp
    then show ?thesis using pos a unfolding u_def by (intro round_pos_of_int [where k = n]) simp_all
  next
    case 4
    have pos: "0 < a" unfolding a using 4(1) u by simp
    have Ev: "E = - 1022"
    proof (rule ccontr)
      assume "E \<noteq> - 1022"
      then have "E = expo x" unfolding E_def by simp
      then have "2 powi E \<le> x" using expo_lower [OF assms] by simp
      then have "of_int (2 ^ 52) \<le> x / u" unfolding lo using u by (simp add: field_simps)
      then have "round_half_even (of_int (2 ^ 52)) \<le> round_half_even (x / u)"
        by (rule round_half_even_mono)
      then have "2 ^ 52 \<le> n" unfolding n_def by (simp only: round_half_even_of_int)
      with 4(2) show False by simp
    qed
    have "(of_int n :: rat) < of_int (2 ^ 52)" using 4(2) by (simp only: of_int_less_iff)
    then have h: "a < 2 powi E" unfolding lo a using u by (intro mult_strict_right_mono)
    have "expo a \<le> E"
    proof (rule ccontr)
      assume "\<not> expo a \<le> E"
      then have "E \<le> expo a" by simp
      then have "(2::rat) powi E \<le> 2 powi (expo a)" by (rule two_powi_mono)
      also have "\<dots> \<le> a" using pos by (rule expo_lower)
      finally show False using h by simp
    qed
    then have "max (expo a) (- 1022) = E" unfolding Ev by simp
    then show ?thesis using pos a unfolding u_def by (intro round_pos_of_int [where k = n]) simp_all
  qed
  then show ?thesis unfolding a_def .
qed

lemma fl_idem:
  assumes "fl x = Finite a"
  shows "fl a = Finite a"
proof -
  consider "x = 0" | "0 < x" | "x < 0" by linarith
  then show ?thesis
  proof cases
    case 1
    with assms show ?thesis by (simp add: fl_def)
  next
    case 2
    with assms have a: "a = round_pos x" and t: "\<not> overflow_threshold \<le> round_pos x"
      by (auto simp: fl_def split: if_splits)
    have "round_pos a = a" unfolding a using 2 by (rule round_pos_idem)
    moreover have "0 \<le> a" unfolding a using 2 by (intro round_pos_nonneg) simp
    ultimately show ?thesis using t a by (auto simp: fl_def)
  next
    case 3
    with assms have a: "a = - round_pos (- x)" and t: "\<not> overflow_threshold \<le> round_pos (- x)"
      by (auto simp: fl_def split: if_splits)
    have "round_pos (- a) = - a" unfolding a using 3 round_pos_idem [of "- x"] by simp
    moreover have "0 \<le> - a" unfolding a using 3 round_pos_nonneg [of "- x"] by simp
    ultimately show ?thesis using t a by (auto simp: fl_def)
  qed
qed

lemma fl_add_nan: "fl_add a NotANumber = NotANumber"
  by (cases a) simp_all

section \<open>Facts about the progress parser\<close>

lemma split_acc_contains:
  "1 < length (split_acc sep k acc s) \<Longrightarrow> contains sep (drop k s)"
proof (induction sep k acc s rule: split_acc.induct)
  case (1 sep skip acc)
  then show ?case by simp
next
  case (2 sep k acc c cs)
  then show ?case by simp
next
  case (3 sep acc c cs)
  show ?case
  proof (cases "sep \<noteq> [] \<and> is_prefix sep (c # cs)")
    case True
    then show ?thesis by simp
  next
    case False
    with 3 have "contains sep (drop 0 cs)" by (simp split: if_splits)
    then show ?thesis by simp
  qed
qed

lemma time_fields_marker:
  assumes "time_fields line = Inr x"
  shows "contains ''time='' line"
proof -
  from assms have "1 < length (py_split ''time='' line)"
    by (simp add: time_fields_def index_def split: if_splits)
  then show ?thesis
    using split_acc_contains [of "''time=''" 0 "[]" line] by (simp add: py_split_def)
qed

lemma time_fields_errors:
  "time_fields line = Inl e \<Longrightarrow> e = IndexError \<or> e = ValueError"
  by (auto simp: time_fields_def index_def split: sum.splits list.splits option.splits if_splits)

lemma py_float_double: "py_float t = Some (Finite s) \<Longrightarrow> fl s = Finite s"
  by (auto simp: py_float_def Let_def fl_idem split: prod.splits if_splits option.splits)

lemma time_fields_double:
  "time_fields line = Inr (h, m, Finite s) \<Longrightarrow> fl s = Finite s"
  by (auto simp: time_fields_def py_float_double
      split: sum.splits list.splits option.splits if_splits)

lemma parse_no_marker:
  "\<not> contains ''time='' line \<Longrightarrow> parse_progress line duration started now = NoSample"
  by (simp add: parse_progress_def)

lemma parse_malformed:
  assumes "time_fields line = Inl e"
  shows "parse_progress line duration started now = NoSample"
proof -
  from assms have "e = IndexError \<or> e = ValueError" by (rule time_fields_errors)
  with assms show ?thesis
    by (auto simp: parse_progress_def progress_sample_def)
qed

lemma current_seconds_errors:
  "current_seconds h m s = Inl e \<Longrightarrow> e = OverflowError ''int too large to convert to float''"
  by (auto simp: current_seconds_def float_of_int_def split: sum.splits pyfloat.splits)

lemma parse_overflow:
  assumes "time_fields line = Inr (h, m, s)" and "current_seconds h m s = Inl e"
  shows "parse_progress line duration started now = Uncaught e"
  using assms time_fields_marker [OF assms(1)] current_seconds_errors [OF assms(2)]
  by (simp add: parse_progress_def progress_sample_def)

lemma parse_zero_duration:
  assumes "time_fields line = Inr (h, m, s)" and "current_seconds h m s = Inr cs"
  shows "parse_progress line 0 started now = NoSample"
  using assms time_fields_marker [OF assms(1)]
  by (simp add: parse_progress_def progress_sample_def progress_of_def)

lemma parse_value:
  assumes "time_fields line = Inr (h, m, s)" and "current_seconds h m s = Inr cs"
    and "duration \<noteq> 0"
  shows "parse_progress line duration started now =
     (case fl_mul (fl_div cs (Finite duration)) (Finite 100) of
        Finite v \<Rightarrow> Sample (min (py_trunc v) 99)
          (eta_of (min (py_trunc v) 99) (fl_sub (Finite now) (Finite started)))
      | NotANumber \<Rightarrow> NoSample
      | _ \<Rightarrow> Uncaught (OverflowError ''cannot convert float infinity to integer''))"
  using assms time_fields_marker [OF assms(1)]
  by (simp add: parse_progress_def progress_sample_def progress_of_def int_of_float_def
      split: pyfloat.splits)

lemma ratio_finite:
  assumes "fl_mul (fl_div cs (Finite duration)) (Finite 100) = Finite v"
  shows "\<exists>x q. cs = Finite x \<and> fl (x / duration) = Finite q \<and> fl (q * 100) = Finite v"
proof (cases cs)
  case (Finite x)
  with assms show ?thesis by (cases "fl (x / duration)") (simp_all add: signed_inf_def)
next
  case PosInf
  with assms show ?thesis by (simp add: signed_inf_def split: if_splits)
next
  case NegInf
  with assms show ?thesis by (simp add: signed_inf_def split: if_splits)
next
  case NotANumber
  with assms show ?thesis by simp
qed

lemma parse_sample:
  assumes "parse_progress line duration started now = Sample p eta"
  shows "\<exists>h m s cs v. time_fields line = Inr (h, m, s) \<and> current_seconds h m s = Inr cs
     \<and> duration \<noteq> 0 \<and> fl_mul (fl_div cs (Finite duration)) (Finite 100) = Finite v
     \<and> p = min (py_trunc v) 99
     \<and> eta = eta_of p (fl_sub (Finite now) (Finite started))"
proof (cases "time_fields line")
  case (Inl e)
  with assms parse_malformed [OF Inl, of duration started now] show ?thesis by simp
next
  case (Inr x)
  obtain h m s where x: "x = (h, m, s)" by (cases x)
  show ?thesis
  proof (cases "current_seconds h m s")
    case (Inl e)
    with assms Inr x parse_overflow [of line h m s e duration started now] show ?thesis by simp
  next
    case cs: (Inr cs)
    show ?thesis
    proof (cases "duration = 0")
      case True
      with assms Inr x cs parse_zero_duration [of line h m s cs started now]
      show ?thesis by simp
    next
      case False
      from parse_value [of line h m s cs duration started now] Inr x cs False assms
      show ?thesis by (auto split: pyfloat.splits)
    qed
  qed
qed

lemma parse_uncaught:
  assumes "parse_progress line duration started now = Uncaught e"
  shows "\<exists>message. e = OverflowError message"
proof (cases "time_fields line")
  case (Inl e')
  with assms parse_malformed [OF Inl, of duration started now] show ?thesis by simp
next
  case (Inr x)
  obtain h m s where x: "x = (h, m, s)" by (cases x)
  show ?thesis
  proof (cases "current_seconds h m s")
    case (Inl e')
    with assms Inr x parse_overflow [of line h m s e' duration started now]
      current_seconds_errors [of h m s e'] show ?thesis by simp
  next
    case cs: (Inr cs)
    show ?thesis
    proof (cases "duration = 0")
      case True
      with assms Inr x cs parse_zero_duration [of line h m s cs started now]
      show ?thesis by simp
    next
      case False
      from parse_value [of line h m s cs duration started now] Inr x cs False assms
      show ?thesis by (auto split: pyfloat.splits)
    qed
  qed
qed

lemma py_trunc_mono: "x \<le> y \<Longrightarrow> py_trunc x \<le> py_trunc y"
proof -
  assume xy: "x \<le> y"
  show ?thesis
  proof (cases "0 \<le> x")
    case True
    with xy show ?thesis by (simp add: py_trunc_def floor_mono)
  next
    case False
    show ?thesis
    proof (cases "0 \<le> y")
      case True
      from False have a: "\<lceil>x\<rceil> \<le> 0" by (simp add: ceiling_le_zero)
      from True have b: "0 \<le> \<lfloor>y\<rfloor>" by simp
      from a b have "\<lceil>x\<rceil> \<le> \<lfloor>y\<rfloor>" by (rule order_trans)
      with False True show ?thesis by (simp add: py_trunc_def)
    next
      case y: False
      with False xy show ?thesis by (simp add: py_trunc_def ceiling_mono)
    qed
  qed
qed

lemma py_trunc_nonneg: "0 \<le> x \<Longrightarrow> py_trunc x = \<lfloor>x\<rfloor> \<and> 0 \<le> py_trunc x"
  by (simp add: py_trunc_def)

lemma percent_nonneg_agrees:
  assumes "0 \<le> v"
  shows "min (py_trunc v) 99 = spec_percent v"
proof -
  from assms have t: "py_trunc v = \<lfloor>v\<rfloor>" and n: "0 \<le> \<lfloor>v\<rfloor>"
    using py_trunc_nonneg [of v] by simp_all
  define f where "f = \<lfloor>v\<rfloor>"
  have "min f 99 = max 0 (min 99 f)"
    using n unfolding f_def [symmetric] by (simp add: min_def max_def)
  then show ?thesis unfolding spec_percent_def t f_def .
qed

text \<open>The percentage does not decrease with the computed media time.\<close>

lemma percent_mono:
  assumes "x \<le> y" and "0 < duration"
    and "fl (x / duration) = Finite q" and "fl (q * 100) = Finite v"
    and "fl (y / duration) = Finite q'" and "fl (q' * 100) = Finite v'"
  shows "min (py_trunc v) 99 \<le> min (py_trunc v') 99"
proof -
  from assms(1,2) have "x / duration \<le> y / duration" by (simp add: divide_right_mono)
  then have "q \<le> q'" using assms(3,5) by (rule fl_mono)
  then have "q * 100 \<le> q' * 100" by simp
  then have "v \<le> v'" using assms(4,6) by (rule fl_mono)
  then have "py_trunc v \<le> py_trunc v'" by (rule py_trunc_mono)
  then show ?thesis by (simp add: min_def)
qed

lemma spec_ratio_code:
  assumes "spec_ratio h m s duration = Finite v"
  shows "\<exists>cs. current_seconds h m (Finite s) = Inr cs
     \<and> fl_mul (fl_div cs (Finite duration)) (Finite 100) = Finite v"
proof (cases "fl (of_int (h * 3600 + m * 60))")
  case (Finite k)
  with assms show ?thesis
    by (simp add: spec_ratio_def spec_seconds_def current_seconds_def float_of_int_def)
next
  case PosInf
  with assms show ?thesis
    by (simp add: spec_ratio_def spec_seconds_def signed_inf_def split: if_splits)
next
  case NegInf
  with assms show ?thesis
    by (simp add: spec_ratio_def spec_seconds_def signed_inf_def split: if_splits)
next
  case NotANumber
  with assms show ?thesis
    by (simp add: spec_ratio_def spec_seconds_def)
qed

section \<open>The progress parser as a function\<close>

lemmas parser_eval =
  parse_progress_def progress_sample_def time_fields_def py_split_def index_def
  py_split_ws_def is_space_def py_int_def py_float_def take_sign_def digitpart_def
  is_digit_def digit_val_def mantissa_def exponent_def scale10_def lower_def
  progress_of_def current_seconds_def py_trunc_def eta_of_def float_of_int_def
  int_of_float_def fl_sub_def signed_inf_def fl_zero fl_one fl_numeral fl_neg_numeral
  fl_minus

lemma fl_half: "fl (1 / 2) = Finite (1 / 2)"
  by (rule fl_exact [where e = "- 1" and n = "2 ^ 52"]) simp_all

lemma fl_quarter: "fl (1 / 4) = Finite (1 / 4)"
  by (rule fl_exact [where e = "- 2" and n = "2 ^ 52"]) simp_all

lemma fl_three_quarters: "fl (3 / 4) = Finite (3 / 4)"
  by (rule fl_exact [where e = "- 1" and n = "3 * 2 ^ 51"]) simp_all

text \<open>The doubles nearest to 0.29 and to a hundred times that double.\<close>

lemma fl_29_100: "fl (29 / 100) = Finite (5224175567749775 / 18014398509481984)"
  using fl_nearest [where x = "29 / 100" and e = "- 2" and n = 5224175567749775] by simp

lemma fl_29_100_100:
  "fl (130604389193744375 / 4503599627370496) = Finite (8162774324609023 / 281474976710656)"
  using fl_nearest [where x = "130604389193744375 / 4503599627370496" and e = 4
      and n = 8162774324609023] by simp

lemma floor_29_100_100: "\<lfloor>8162774324609023 / 281474976710656 :: rat\<rfloor> = 28"
  by (simp add: floor_eq_iff)

text \<open>
  C7, as the code has it. The parser returns no sample when the line has no
  \<^verbatim>\<open>time=\<close> marker, when the marker is malformed (the text after it does not split into
  three fields, or a field is not a number), and, the integer part of the media time
  being within the range of a double, when the seconds field is not-a-number or the
  duration is 0. For a marker \<open>h:m:s\<close> with a finite seconds field and a non-zero duration
  such that \<open>v = (h*3600+m*60+s)/duration*100\<close>, computed in double arithmetic, is finite,
  it returns \<open>percent = min(trunc(v), 99)\<close>, where \<open>trunc\<close> rounds towards zero and
  nothing clamps from below: the percentage is \<open>clamp(floor(v), 0, 99)\<close> when \<open>v\<close> is not
  negative and the negative number \<open>ceiling(v)\<close> otherwise. The estimate is
  \<open>elapsedWall*100/percent - elapsedWall\<close> in double arithmetic for a positive percentage
  and 0 otherwise. With duration 120, media time 00:01:00.00 and 30 seconds of wall time
  the sample is 50 percent and 30 seconds; with duration 100 and media time 00:00:29.00
  the percentage is 28, since the double nearest to 0.29, times 100, rounds below 29.
\<close>

theorem parse_progress_behaviour:
  "(\<not> contains ''time='' line \<longrightarrow> parse_progress line duration started now = NoSample)
   \<and> (\<forall>e. time_fields line = Inl e \<longrightarrow> parse_progress line duration started now = NoSample)
   \<and> (\<forall>h m cs. time_fields line = Inr (h, m, NotANumber)
          \<and> current_seconds h m NotANumber = Inr cs
        \<longrightarrow> parse_progress line duration started now = NoSample)
   \<and> (\<forall>h m s cs. time_fields line = Inr (h, m, s) \<and> current_seconds h m s = Inr cs
          \<and> duration = 0
        \<longrightarrow> parse_progress line duration started now = NoSample)
   \<and> (\<forall>h m s v. time_fields line = Inr (h, m, Finite s) \<and> duration \<noteq> 0
          \<and> spec_ratio h m s duration = Finite v \<longrightarrow>
        (let percent = min (py_trunc v) 99
         in parse_progress line duration started now
              = Sample percent (spec_eta percent (fl_sub (Finite now) (Finite started)))
            \<and> (0 \<le> v \<longrightarrow> percent = spec_percent v)
            \<and> (v < 0 \<longrightarrow> percent = \<lceil>v\<rceil>)))
   \<and> parse_progress ''size=1024kB time=00:01:00.00 bitrate=139.8kbits/s'' 120 started
        (started + 30) = Sample 50 (Finite 30)
   \<and> parse_progress ''size=512kB time=00:00:29.00 bitrate=141.2kbits/s'' 100 started
        (started + 28) = Sample 28 (Finite 72)"
proof -
  have c1: "\<not> contains ''time='' line \<longrightarrow> parse_progress line duration started now = NoSample"
    by (simp add: parse_no_marker)
  have c2: "\<forall>e. time_fields line = Inl e \<longrightarrow> parse_progress line duration started now = NoSample"
    by (simp add: parse_malformed)
  have c3: "\<forall>h m cs. time_fields line = Inr (h, m, NotANumber)
          \<and> current_seconds h m NotANumber = Inr cs
        \<longrightarrow> parse_progress line duration started now = NoSample"
  proof (intro allI impI)
    fix h m cs
    assume a: "time_fields line = Inr (h, m, NotANumber)
        \<and> current_seconds h m NotANumber = Inr cs"
    then have n: "cs = NotANumber"
      by (auto simp: current_seconds_def fl_add_nan split: sum.splits)
    show "parse_progress line duration started now = NoSample"
    proof (cases "duration = 0")
      case True
      with a parse_zero_duration [of line h m NotANumber cs started now] show ?thesis by simp
    next
      case False
      with a n parse_value [of line h m NotANumber cs duration started now]
      show ?thesis by simp
    qed
  qed
  have c4: "\<forall>h m s cs. time_fields line = Inr (h, m, s) \<and> current_seconds h m s = Inr cs
          \<and> duration = 0
        \<longrightarrow> parse_progress line duration started now = NoSample"
    using parse_zero_duration by blast
  have c5: "\<forall>h m s v. time_fields line = Inr (h, m, Finite s) \<and> duration \<noteq> 0
          \<and> spec_ratio h m s duration = Finite v \<longrightarrow>
        (let percent = min (py_trunc v) 99
         in parse_progress line duration started now
              = Sample percent (spec_eta percent (fl_sub (Finite now) (Finite started)))
            \<and> (0 \<le> v \<longrightarrow> percent = spec_percent v)
            \<and> (v < 0 \<longrightarrow> percent = \<lceil>v\<rceil>))"
  proof (intro allI impI)
    fix h m s v
    assume a: "time_fields line = Inr (h, m, Finite s) \<and> duration \<noteq> 0
          \<and> spec_ratio h m s duration = Finite v"
    then obtain cs where cs: "current_seconds h m (Finite s) = Inr cs"
      and v: "fl_mul (fl_div cs (Finite duration)) (Finite 100) = Finite v"
      using spec_ratio_code [of h m s duration v] by blast
    from a cs v parse_value [of line h m "Finite s" cs duration started now]
    have "parse_progress line duration started now
        = Sample (min (py_trunc v) 99)
            (eta_of (min (py_trunc v) 99) (fl_sub (Finite now) (Finite started)))"
      by simp
    moreover have "eta_of p w = spec_eta p w" for p w
      by (simp add: eta_of_def spec_eta_def)
    moreover have "0 \<le> v \<longrightarrow> min (py_trunc v) 99 = spec_percent v"
      using percent_nonneg_agrees by blast
    moreover have "v < 0 \<longrightarrow> min (py_trunc v) 99 = \<lceil>v\<rceil>"
    proof
      assume n: "v < 0"
      then have "\<lceil>v\<rceil> \<le> 0" by (simp add: ceiling_le_zero)
      with n show "min (py_trunc v) 99 = \<lceil>v\<rceil>" by (simp add: py_trunc_def)
    qed
    ultimately show "let percent = min (py_trunc v) 99
         in parse_progress line duration started now
              = Sample percent (spec_eta percent (fl_sub (Finite now) (Finite started)))
            \<and> (0 \<le> v \<longrightarrow> percent = spec_percent v)
            \<and> (v < 0 \<longrightarrow> percent = \<lceil>v\<rceil>)"
      unfolding Let_def by simp
  qed
  have c6: "parse_progress ''size=1024kB time=00:01:00.00 bitrate=139.8kbits/s'' 120
      started (started + 30) = Sample 50 (Finite 30)"
    by (simp add: parser_eval fl_half)
  have c7: "parse_progress ''size=512kB time=00:00:29.00 bitrate=141.2kbits/s'' 100
      started (started + 28) = Sample 28 (Finite 72)"
    by (simp add: parser_eval fl_29_100 fl_29_100_100 floor_29_100_100)
  show ?thesis by (intro conjI; fact)
qed

theorem parse_progress_behaviour_witness:
  "time_fields ''time=00:00:15.00 speed=2x'' = Inr (0, 0, Finite 15)
   \<and> (60 :: rat) \<noteq> 0
   \<and> spec_ratio 0 0 15 60 = Finite 25
   \<and> parse_progress ''time=00:00:15.00 speed=2x'' 60 100 105 = Sample 25 (Finite 15)
   \<and> spec_percent 25 = 25
   \<and> time_fields ''time=N/A speed=2x'' = Inl ValueError
   \<and> parse_progress ''time=N/A speed=2x'' 60 100 105 = NoSample"
proof -
  have f: "time_fields ''time=00:00:15.00 speed=2x'' = Inr (0, 0, Finite 15)"
    by (simp add: parser_eval)
  have g: "time_fields ''time=N/A speed=2x'' = Inl ValueError"
    by (simp add: parser_eval)
  have r: "spec_ratio 0 0 15 60 = Finite 25"
    by (simp add: spec_ratio_def spec_seconds_def fl_zero fl_numeral fl_quarter)
  have d: "(60 :: rat) \<noteq> 0" and n: "(0 :: rat) \<le> 25"
    and p: "min (py_trunc 25) 99 = 25"
    and e: "spec_eta 25 (fl_sub (Finite 105) (Finite 100)) = Finite 15"
    by (simp_all add: spec_eta_def fl_sub_def fl_numeral py_trunc_def)
  from parse_progress_behaviour [of "''time=00:00:15.00 speed=2x''" 60 100 105]
  have "time_fields ''time=00:00:15.00 speed=2x'' = Inr (0, 0, Finite 15)
      \<and> (60 :: rat) \<noteq> 0 \<and> spec_ratio 0 0 15 60 = Finite 25 \<longrightarrow>
    (let percent = min (py_trunc 25) 99
     in parse_progress ''time=00:00:15.00 speed=2x'' 60 100 105
          = Sample percent (spec_eta percent (fl_sub (Finite 105) (Finite 100)))
        \<and> (0 \<le> (25 :: rat) \<longrightarrow> percent = spec_percent 25)
        \<and> ((25 :: rat) < 0 \<longrightarrow> percent = \<lceil>25 :: rat\<rceil>))"
    by blast
  with f d r have "parse_progress ''time=00:00:15.00 speed=2x'' 60 100 105
          = Sample 25 (spec_eta 25 (fl_sub (Finite 105) (Finite 100)))
        \<and> (0 \<le> (25 :: rat) \<longrightarrow> 25 = spec_percent 25)"
    unfolding Let_def p by blast
  with n have a: "parse_progress ''time=00:00:15.00 speed=2x'' 60 100 105
        = Sample 25 (Finite 15)"
    and b: "spec_percent 25 = 25"
    unfolding e by simp_all
  from parse_progress_behaviour [of "''time=N/A speed=2x''" 60 100 105] g
  have c: "parse_progress ''time=N/A speed=2x'' 60 100 105 = NoSample" by blast
  from f d r a b g c show ?thesis by (intro conjI)
qed

text \<open>
  C7 as the specification states it fails: a negative media time is not clamped to 0. The
  line below gives -3000 percent where the stated formula gives 0.
\<close>

theorem parse_progress_counterexample:
  "time_fields ''size=0kB time=-01:00:00.00 bitrate=N/A'' = Inr (- 1, 0, Finite 0)
   \<and> spec_ratio (- 1) 0 0 120 = Finite (- 3000)
   \<and> parse_progress ''size=0kB time=-01:00:00.00 bitrate=N/A'' 120 0 30
        = Sample (- 3000) (Finite 0)
   \<and> spec_percent (- 3000) = 0"
  by (simp add: parser_eval spec_percent_def spec_ratio_def spec_seconds_def)


section \<open>Facts about a run of the worker\<close>

lemma parse_sample_le:
  assumes "parse_progress line duration started now = Sample p eta"
  shows "p \<le> 99"
  using parse_sample [OF assms] by auto

lemma monitor_emits:
  "Emit sig \<in> set (fst (monitor duration started ls))
   \<Longrightarrow> \<exists>v eta. sig = progress_update v eta \<and> v \<le> 99"
proof (induction ls)
  case Nil
  then show ?case by simp
next
  case (Cons l ls)
  obtain line now where l: "l = (line, now)" by (cases l)
  show ?case
  proof (cases "parse_progress line duration started now")
    case NoSample
    with Cons l show ?thesis by (auto split: prod.splits)
  next
    case (Sample p eta)
    then have "p \<le> 99" by (rule parse_sample_le)
    with Cons l Sample show ?thesis by (auto split: prod.splits)
  next
    case (Uncaught e)
    with Cons l show ?thesis by simp
  qed
qed

lemma monitor_no_invoke: "Invoke cmd \<notin> set (fst (monitor duration started ls))"
proof (induction ls)
  case Nil
  then show ?case by simp
next
  case (Cons l ls)
  obtain line now where l: "l = (line, now)" by (cases l)
  with Cons show ?case
    by (cases "parse_progress line duration started now") (auto split: prod.splits)
qed

lemma percents_append: "percents (xs @ ys) = percents xs @ percents ys"
  by (induction xs rule: percents.induct) simp_all

lemma percents_set:
  "v \<in> set (percents es) \<Longrightarrow> \<exists>eta. Emit (progress_update v eta) \<in> set es"
  by (induction es rule: percents.induct) auto

lemma run_started:
  assumes "ffmpeg_installed w" and "0 < video_duration w"
  shows "run w c = [Invoke [''ffmpeg'', ''-version''], DurationProbe]
     @ (if use_nvenc c then nvenc_invocations w else [])
     @ (if use_nvenc c \<and> \<not> is_nvenc_available w
        then [Emit (conversion_error fallback_notice)] else [])
     @ encode w c"
  using assms by (simp add: run_def)

lemma monitor_captured:
  "snd (snd (monitor duration started ls)) = None
   \<Longrightarrow> fst (snd (monitor duration started ls)) = map fst ls"
proof (induction ls)
  case Nil
  then show ?case by simp
next
  case (Cons l ls)
  obtain line now where l: "l = (line, now)" by (cases l)
  with Cons show ?case
    by (cases "parse_progress line duration started now") (auto split: prod.splits)
qed

lemma encode_to_exit:
  assumes "reaches_exit w"
  shows "encode w c =
     Popen (ffmpeg_cmd (input_file c) (output_file c) (preset c) (nvenc_used w c))
     # fst (monitor (video_duration w) (start_time w) (output_lines w)) @ [Wait]
     @ finish w c (map fst (output_lines w))"
proof (cases "monitor (video_duration w) (start_time w) (output_lines w)")
  case (fields effs captured r)
  with assms have r: "r = None" by (simp add: reaches_exit_def)
  with fields monitor_captured [of "video_duration w" "start_time w" "output_lines w"]
  have "captured = map fst (output_lines w)" by simp
  with fields r show ?thesis by (simp add: encode_def)
qed

lemma nvenc_invocations_no_emit: "Emit sig \<notin> set (nvenc_invocations w)"
  by (simp add: nvenc_invocations_def split: option.splits)

lemma encode_progress:
  assumes "Emit (progress_update v eta) \<in> set (encode w c)"
  shows "v \<le> 99 \<or> (v = 100 \<and> eta = Finite 0 \<and> returncode w = 0)"
proof (cases "monitor (video_duration w) (start_time w) (output_lines w)")
  case (fields effs captured r)
  have m: "Emit (progress_update v eta) \<in> set effs \<Longrightarrow> v \<le> 99"
    using monitor_emits [of "progress_update v eta" "video_duration w" "start_time w"
        "output_lines w"] fields by simp
  from assms fields m show ?thesis
    by (cases r) (auto simp: encode_def finish_def split: if_splits)
qed

lemma run_progress:
  assumes "Emit (progress_update v eta) \<in> set (run w c)"
  shows "v \<le> 99 \<or> (v = 100 \<and> eta = Finite 0 \<and> returncode w = 0)"
proof -
  from assms have "Emit (progress_update v eta) \<in> set (encode w c)"
    using nvenc_invocations_no_emit [of "progress_update v eta" w]
    by (auto simp: run_def split: if_splits)
  then show ?thesis by (rule encode_progress)
qed

lemma run_to_exit:
  assumes "ffmpeg_installed w" and "0 < video_duration w" and "reaches_exit w"
  shows "\<exists>pre. run w c = pre @ Wait # finish w c (map fst (output_lines w))
     \<and> Popen (ffmpeg_cmd (input_file c) (output_file c) (preset c) (nvenc_used w c)) \<in> set pre
     \<and> (\<forall>v eta. Emit (progress_update v eta) \<in> set pre \<longrightarrow> v \<le> 99)"
proof -
  let ?m = "fst (monitor (video_duration w) (start_time w) (output_lines w))"
  let ?head = "[Invoke [''ffmpeg'', ''-version''], DurationProbe]
     @ (if use_nvenc c then nvenc_invocations w else [])
     @ (if use_nvenc c \<and> \<not> is_nvenc_available w
        then [Emit (conversion_error fallback_notice)] else [])"
  let ?cmd = "ffmpeg_cmd (input_file c) (output_file c) (preset c) (nvenc_used w c)"
  let ?pre = "?head @ Popen ?cmd # ?m"
  have "run w c = ?pre @ Wait # finish w c (map fst (output_lines w))"
    using run_started [OF assms(1,2), of c] encode_to_exit [OF assms(3), of c] by simp
  moreover have "Popen ?cmd \<in> set ?pre" by simp
  moreover have "\<forall>v eta. Emit (progress_update v eta) \<in> set ?pre \<longrightarrow> v \<le> 99"
    using monitor_emits [of _ "video_duration w" "start_time w" "output_lines w"]
      nvenc_invocations_no_emit [of _ w]
    by (auto split: if_splits)
  ultimately show ?thesis by blast
qed

lemma ffmpeg_cmd_shape:
  "ffmpeg_cmd inp outp pre nv ! 2 = inp
   \<and> ffmpeg_cmd inp outp pre nv ! 4 = (if nv then ''h264_nvenc'' else ''libx264'')
   \<and> last (ffmpeg_cmd inp outp pre nv) = outp
   \<and> ''-y'' \<in> set (ffmpeg_cmd inp outp pre nv)"
  by (simp add: ffmpeg_cmd_def)

section \<open>Range of the reported percentage\<close>

text \<open>
  C8, as the code has it. Every sample parsed from a log line has a percentage of at most
  99, and of at least 0 when the media time it reports is not negative and the duration is
  positive (nothing clamps a negative media time). A run emits the percentage 100 only as
  the pair (100, 0) of the completion path, on return code 0; and whenever the run reaches
  the end of the encoder's output and the return code is 0, it ends by waiting, emitting
  exactly (100, 0) and then the completion signal, every percentage before being at most
  99.
\<close>

theorem percent_range:
  "(parse_progress line duration started now = Sample p eta \<longrightarrow> p \<le> 99)
   \<and> (\<forall>h m s. time_fields line = Inr (h, m, Finite s)
          \<and> 0 \<le> of_int (h * 3600 + m * 60) + s \<and> 0 < duration
          \<and> parse_progress line duration started now = Sample p eta \<longrightarrow> 0 \<le> p)
   \<and> (\<forall>v e. Emit (progress_update v e) \<in> set (run w c)
          \<longrightarrow> v \<le> 99 \<or> (v = 100 \<and> e = Finite 0 \<and> returncode w = 0))
   \<and> (ffmpeg_installed w \<and> 0 < video_duration w \<and> reaches_exit w \<and> returncode w = 0
        \<longrightarrow> (\<exists>pre. run w c = pre @ [Wait, Emit (progress_update 100 (Finite 0)),
                                   Emit (conversion_complete (output_file c))]
                \<and> (\<forall>v e. Emit (progress_update v e) \<in> set pre \<longrightarrow> v \<le> 99)))"
proof -
  have c1: "parse_progress line duration started now = Sample p eta \<longrightarrow> p \<le> 99"
    using parse_sample_le by blast
  have c2: "\<forall>h m s. time_fields line = Inr (h, m, Finite s)
          \<and> 0 \<le> of_int (h * 3600 + m * 60) + s \<and> 0 < duration
          \<and> parse_progress line duration started now = Sample p eta \<longrightarrow> 0 \<le> p"
  proof (intro allI impI)
    fix h m s
    assume a: "time_fields line = Inr (h, m, Finite s)
          \<and> 0 \<le> of_int (h * 3600 + m * 60) + s \<and> 0 < duration
          \<and> parse_progress line duration started now = Sample p eta"
    then obtain h' m' s' cs v where t: "time_fields line = Inr (h', m', s')"
      and c: "current_seconds h' m' s' = Inr cs"
      and v: "fl_mul (fl_div cs (Finite duration)) (Finite 100) = Finite v"
      and p: "p = min (py_trunc v) 99"
      using parse_sample [of line duration started now p eta] by blast
    from a t have hms: "h' = h" "m' = m" "s' = Finite s" by simp_all
    from v obtain x q where x: "cs = Finite x" and q: "fl (x / duration) = Finite q"
      and r: "fl (q * 100) = Finite v"
      using ratio_finite by blast
    from c x hms obtain k where k: "fl (of_int (h * 3600 + m * 60)) = Finite k"
      and s: "fl (k + s) = Finite x"
      by (auto simp: current_seconds_def float_of_int_def split: pyfloat.splits)
    from a have "fl s = Finite s" using time_fields_double by blast
    then have ms: "fl (- s) = Finite (- s)" by (simp add: fl_minus)
    from a have "- s \<le> of_int (h * 3600 + m * 60)" by simp
    then have "- s \<le> k" using ms k by (rule fl_mono)
    then have "0 \<le> k + s" by simp
    then have "0 \<le> x" using s by (rule fl_nonneg)
    with a have "0 \<le> x / duration" by simp
    then have "0 \<le> q" using q by (rule fl_nonneg)
    then have "0 \<le> q * 100" by simp
    then have "0 \<le> v" using r by (rule fl_nonneg)
    then have "0 \<le> py_trunc v" using py_trunc_nonneg by blast
    with p show "0 \<le> p" by simp
  qed
  have c3: "\<forall>v e. Emit (progress_update v e) \<in> set (run w c)
          \<longrightarrow> v \<le> 99 \<or> (v = 100 \<and> e = Finite 0 \<and> returncode w = 0)"
    using run_progress by blast
  have c4: "ffmpeg_installed w \<and> 0 < video_duration w \<and> reaches_exit w \<and> returncode w = 0
        \<longrightarrow> (\<exists>pre. run w c = pre @ [Wait, Emit (progress_update 100 (Finite 0)),
                                   Emit (conversion_complete (output_file c))]
                \<and> (\<forall>v e. Emit (progress_update v e) \<in> set pre \<longrightarrow> v \<le> 99))"
  proof
    assume a: "ffmpeg_installed w \<and> 0 < video_duration w \<and> reaches_exit w \<and> returncode w = 0"
    then obtain pre where "run w c = pre @ Wait # finish w c (map fst (output_lines w))"
      and "\<forall>v e. Emit (progress_update v e) \<in> set pre \<longrightarrow> v \<le> 99"
      using run_to_exit [of w c] by blast
    moreover from a have "finish w c (map fst (output_lines w)) = [Emit (progress_update 100 (Finite 0)),
        Emit (conversion_complete (output_file c))]"
      by (simp add: finish_def)
    ultimately show "\<exists>pre. run w c = pre @ [Wait, Emit (progress_update 100 (Finite 0)),
                                   Emit (conversion_complete (output_file c))]
                \<and> (\<forall>v e. Emit (progress_update v e) \<in> set pre \<longrightarrow> v \<le> 99)"
      by auto
  qed
  show ?thesis by (intro conjI; fact)
qed

theorem percent_range_witness:
  "time_fields ''time=00:00:06.00 x'' = Inr (0, 0, Finite 6)
   \<and> parse_progress ''time=00:00:06.00 x'' 8 0 3 = Sample 75 (Finite 1)
   \<and> (0 :: rat) \<le> of_int (0 * 3600 + 0 * 60) + 6 \<and> (0 :: rat) < 8
   \<and> (0 :: int) \<le> 75 \<and> (75 :: int) \<le> 99"
proof -
  have f: "time_fields ''time=00:00:06.00 x'' = Inr (0, 0, Finite 6)"
    by (simp add: parser_eval)
  have g: "parse_progress ''time=00:00:06.00 x'' 8 0 3 = Sample 75 (Finite 1)"
    by (simp add: parser_eval fl_three_quarters)
  have n: "(0 :: rat) \<le> of_int (0 * 3600 + 0 * 60) + 6 \<and> (0 :: rat) < 8" by simp
  from percent_range [of "''time=00:00:06.00 x''" 8 0 3 75 "Finite 1"] f g n
  have "(75 :: int) \<le> 99 \<and> (0 :: int) \<le> 75" by blast
  with f g n show ?thesis by blast
qed

text \<open>
  C8 as stated fails at the lower bound: a line reporting a negative media time (as the
  encoder prints for an undefined timestamp) yields a negative percentage, which the loop
  emits.
\<close>

theorem percent_range_counterexample:
  "monitor 120 0 [(''frame=0 time=-577014:32:22.77 bitrate=N/A'', 1)]
     = ([ReadLine ''frame=0 time=-577014:32:22.77 bitrate=N/A'',
         Emit (progress_update (- 1731040381) (Finite 0))],
        [''frame=0 time=-577014:32:22.77 bitrate=N/A''], None)"
proof -
  have f1: "fl (2277 / 100) = Finite (6409185219701637 / 281474976710656)"
    using fl_nearest [where x = "2277 / 100" and e = 4 and n = 6409185219701637] by simp
  have f2: "fl (584693461121060356101243 / 281474976710656)
      = Finite (4356305756576809 / 2097152)"
    using fl_nearest [where x = "584693461121060356101243 / 281474976710656" and e = 30
        and n = 8712611513153618] by simp
  have f3: "fl (4356305756576809 / 251658240) = Finite (1161681535087149 / 67108864)"
    using fl_nearest [where x = "4356305756576809 / 251658240" and e = 24
        and n = 4646726140348596] by simp
  have f4: "fl (29042038377178725 / 16777216) = Finite (7260509594294681 / 4194304)"
    using fl_nearest [where x = "29042038377178725 / 16777216" and e = 30
        and n = 7260509594294681] by simp
  have c: "\<lceil>- (7260509594294681 / 4194304 :: rat)\<rceil> = - 1731040381"
    by (simp add: ceiling_eq_iff)
  show ?thesis by (simp add: parser_eval f1 f2 f3 f4 c)
qed

section \<open>Order of the reported percentages\<close>

text \<open>The percentage that the loop computes from a media time, when it computes one.\<close>

lemma media_time_sample:
  assumes "parse_progress line duration started now = Sample p eta"
  shows "\<exists>x q v. media_time line = Some x \<and> fl (x / duration) = Finite q
     \<and> fl (q * 100) = Finite v \<and> p = min (py_trunc v) 99"
proof -
  from parse_sample [OF assms] obtain h m s cs v
    where t: "time_fields line = Inr (h, m, s)" and c: "current_seconds h m s = Inr cs"
      and v: "fl_mul (fl_div cs (Finite duration)) (Finite 100) = Finite v"
      and p: "p = min (py_trunc v) 99"
    by blast
  from v obtain x q where x: "cs = Finite x" and q: "fl (x / duration) = Finite q"
    and r: "fl (q * 100) = Finite v"
    using ratio_finite by blast
  from t c x have "media_time line = Some x" by (simp add: media_time_def)
  with q r p show ?thesis by blast
qed

lemma monitor_sorted:
  assumes "0 < duration"
  shows "sorted (List.map_filter media_time (map fst ls))
     \<Longrightarrow> sorted (percents (fst (monitor duration started ls)))
       \<and> (\<forall>p \<in> set (percents (fst (monitor duration started ls))).
            \<exists>x \<in> set (List.map_filter media_time (map fst ls)).
              \<exists>q v. fl (x / duration) = Finite q \<and> fl (q * 100) = Finite v
                \<and> p = min (py_trunc v) 99)"
proof (induction ls)
  case Nil
  then show ?case by simp
next
  case (Cons l ls)
  obtain line now where l: "l = (line, now)" by (cases l)
  obtain effs captured r where mr: "monitor duration started ls = (effs, captured, r)"
    by (cases "monitor duration started ls")
  have tl: "sorted (List.map_filter media_time (map fst ls))"
    using Cons.prems l by (cases "media_time line") (simp_all add: map_filter_simps)
  from Cons.IH [OF tl] have ih1: "sorted (percents (fst (monitor duration started ls)))"
    and ih2: "\<forall>p \<in> set (percents (fst (monitor duration started ls))).
          \<exists>y \<in> set (List.map_filter media_time (map fst ls)).
            \<exists>q v. fl (y / duration) = Finite q \<and> fl (q * 100) = Finite v
              \<and> p = min (py_trunc v) 99"
    by simp_all
  have sub: "set (List.map_filter media_time (map fst ls))
      \<subseteq> set (List.map_filter media_time (map fst (l # ls)))"
    using l by (cases "media_time line") (auto simp: map_filter_simps)
  from ih2 sub have ih3: "\<forall>p \<in> set (percents (fst (monitor duration started ls))).
          \<exists>y \<in> set (List.map_filter media_time (map fst (l # ls))).
            \<exists>q v. fl (y / duration) = Finite q \<and> fl (q * 100) = Finite v
              \<and> p = min (py_trunc v) 99"
    by blast
  show ?case
  proof (cases "parse_progress line duration started now")
    case NoSample
    with l mr have pc: "percents (fst (monitor duration started (l # ls)))
        = percents (fst (monitor duration started ls))" by simp
    show ?thesis unfolding pc using ih1 ih3 by (intro conjI)
  next
    case (Uncaught e)
    with l show ?thesis by simp
  next
    case (Sample p eta)
    from media_time_sample [OF Sample] obtain x q v
      where x: "media_time line = Some x" and q: "fl (x / duration) = Finite q"
        and v: "fl (q * 100) = Finite v" and p: "p = min (py_trunc v) 99"
      by blast
    from x l have eq: "List.map_filter media_time (map fst (l # ls))
         = x # List.map_filter media_time (map fst ls)"
      by (simp add: map_filter_simps)
    with Cons.prems have le: "\<forall>y \<in> set (List.map_filter media_time (map fst ls)). x \<le> y"
      by simp
    from Sample l mr have pc: "percents (fst (monitor duration started (l # ls)))
        = p # percents (fst (monitor duration started ls))" by simp
    have first: "\<forall>p' \<in> set (percents (fst (monitor duration started ls))). p \<le> p'"
    proof
      fix p' assume "p' \<in> set (percents (fst (monitor duration started ls)))"
      with ih2 obtain y q' v' where y: "y \<in> set (List.map_filter media_time (map fst ls))"
        and q': "fl (y / duration) = Finite q'" and v': "fl (q' * 100) = Finite v'"
        and p': "p' = min (py_trunc v') 99"
        by blast
      from le y have "x \<le> y" by simp
      then show "p \<le> p'" unfolding p p' using assms q v q' v' by (rule percent_mono)
    qed
    have here: "\<exists>y \<in> set (List.map_filter media_time (map fst (l # ls))).
        \<exists>q v. fl (y / duration) = Finite q \<and> fl (q * 100) = Finite v
          \<and> p = min (py_trunc v) 99"
      unfolding eq using q v p by auto
    have s1: "sorted (p # percents (fst (monitor duration started ls)))"
      using ih1 first by simp
    have s2: "\<forall>p' \<in> set (p # percents (fst (monitor duration started ls))).
          \<exists>y \<in> set (List.map_filter media_time (map fst (l # ls))).
            \<exists>q v. fl (y / duration) = Finite q \<and> fl (q * 100) = Finite v
              \<and> p' = min (py_trunc v) 99"
      using ih3 here by simp
    show ?thesis unfolding pc using s1 s2 by (intro conjI)
  qed
qed

lemma run_percents:
  "percents (run w c) = percents (encode w c) \<or> percents (run w c) = []"
proof -
  have "percents (nvenc_invocations w) = []"
    by (simp add: nvenc_invocations_def split: option.splits)
  then show ?thesis
    by (simp add: run_def percents_append)
qed

lemma encode_percents:
  "percents (encode w c)
     = percents (fst (monitor (video_duration w) (start_time w) (output_lines w)))
   \<or> percents (encode w c)
     = percents (fst (monitor (video_duration w) (start_time w) (output_lines w))) @ [100]"
proof (cases "monitor (video_duration w) (start_time w) (output_lines w)")
  case (fields effs captured r)
  then show ?thesis
    by (cases r) (simp_all add: encode_def finish_def percents_append)
qed

text \<open>
  C6, as the code has it. The worker keeps no last percentage: the percentage of each
  progress event is computed from its own log line. Within one run the emitted
  percentages are non-decreasing whenever the elapsed media times reported by the
  successive lines, as the loop computes them, are non-decreasing (the final 100
  included).
\<close>

theorem percent_monotone:
  assumes "sorted (List.map_filter media_time (map fst (output_lines w)))"
  shows "sorted (percents (run w c))"
proof (cases "percents (run w c) = []")
  case True
  then show ?thesis by simp
next
  case False
  with run_percents [of w c] have r: "percents (run w c) = percents (encode w c)" by simp
  let ?m = "percents (fst (monitor (video_duration w) (start_time w) (output_lines w)))"
  have d: "0 < video_duration w"
  proof (rule ccontr)
    assume "\<not> 0 < video_duration w"
    then have "percents (run w c) = []" by (simp add: run_def)
    with False show False by simp
  qed
  from monitor_sorted [OF d assms, of "start_time w"] have s: "sorted ?m" by simp
  have b: "\<forall>v \<in> set ?m. v \<le> 100"
  proof
    fix v assume "v \<in> set ?m"
    then obtain eta where "Emit (progress_update v eta)
        \<in> set (fst (monitor (video_duration w) (start_time w) (output_lines w)))"
      using percents_set by blast
    then have "v \<le> 99" using monitor_emits by blast
    then show "v \<le> 100" by simp
  qed
  from encode_percents [of w c] s b r show ?thesis
    by (auto simp: sorted_append)
qed

theorem percent_monotone_witness:
  "sorted (List.map_filter media_time (map fst
       [(''time=00:00:30.00 a'', 10 :: rat), (''no marker'', 11), (''time=00:01:00.00 b'', 20)]))
   \<and> percents (run \<lparr>ffmpeg_installed = True, video_duration = 120, encoders_stdout = None,
         nvenc_test_returncode = None, start_time = 0,
         output_lines = [(''time=00:00:30.00 a'', 10), (''no marker'', 11),
           (''time=00:01:00.00 b'', 20)],
         returncode = 0\<rparr>
       \<lparr>input_file = ''a.avi'', output_file = ''a.mp4'', preset = ''medium'',
         format = ''mp4'', use_nvenc = False\<rparr>) = [25, 50, 100]
   \<and> sorted [25, 50, 100 :: int]"
proof -
  let ?ls = "[(''time=00:00:30.00 a'', 10 :: rat), (''no marker'', 11),
      (''time=00:01:00.00 b'', 20)]"
  let ?w = "\<lparr>ffmpeg_installed = True, video_duration = 120, encoders_stdout = None,
         nvenc_test_returncode = None, start_time = 0, output_lines = ?ls,
         returncode = 0\<rparr>"
  let ?c = "\<lparr>input_file = ''a.avi'', output_file = ''a.mp4'', preset = ''medium'',
         format = ''mp4'', use_nvenc = False\<rparr>"
  have h: "sorted (List.map_filter media_time (map fst ?ls))"
    by (simp add: map_filter_simps media_time_def parser_eval)
  have p: "percents (run ?w ?c) = [25, 50, 100]"
    by (simp add: run_def encode_def finish_def parser_eval fl_half fl_quarter)
  from percent_monotone [of ?w ?c] h have "sorted (percents (run ?w ?c))" by simp
  with p have "sorted [25, 50, 100 :: int]" by simp
  with h p show ?thesis by blast
qed

text \<open>
  C6 as stated fails: when a later line reports an earlier media time, the later event
  carries the smaller percentage.
\<close>

theorem percent_monotone_counterexample:
  "percents (run \<lparr>ffmpeg_installed = True, video_duration = 120, encoders_stdout = None,
         nvenc_test_returncode = None, start_time = 0,
         output_lines = [(''time=00:01:00.00 a'', 10), (''time=00:00:30.00 b'', 20)],
         returncode = 1\<rparr>
       \<lparr>input_file = ''a.avi'', output_file = ''a.mp4'', preset = ''medium'',
         format = ''mp4'', use_nvenc = False\<rparr>) = [50, 25]"
  by (simp add: run_def encode_def finish_def parser_eval fl_half fl_quarter)
section \<open>Failure after a non-zero return code\<close>

text \<open>
  When a run has opened the encoder, has read its output to the end and finds a non-zero
  return code, the last thing it does is to emit the failure signal. If the run used the
  hardware codec and the captured output contains one of the NVENC signatures, the
  message is the fixed advice on the NVIDIA encoder; otherwise it is the generic message
  carrying the return code.
\<close>

lemma exit_failure_after_loop:
  assumes "ffmpeg_installed w" and "0 < video_duration w" and "reaches_exit w"
    and "returncode w \<noteq> 0"
  shows "\<exists>pre. run w c = pre @ [Wait, Emit (conversion_error
            (if nvenc_used w c
                \<and> (\<exists>sig \<in> set nvenc_signatures.
                      contains sig (concat (map fst (output_lines w))))
             then nvenc_error_message
             else ''Conversion failed with error code '' @ str_int (returncode w)))]
         \<and> Popen (ffmpeg_cmd (input_file c) (output_file c) (preset c) (nvenc_used w c))
             \<in> set pre"
proof -
  from run_to_exit [OF assms(1,2,3), of c] obtain pre
    where r: "run w c = pre @ Wait # finish w c (map fst (output_lines w))"
      and p: "Popen (ffmpeg_cmd (input_file c) (output_file c) (preset c) (nvenc_used w c))
             \<in> set pre"
    by blast
  from assms(4) have "finish w c (map fst (output_lines w)) = [Emit (conversion_error
            (if nvenc_used w c
                \<and> (\<exists>sig \<in> set nvenc_signatures.
                      contains sig (concat (map fst (output_lines w))))
             then nvenc_error_message
             else ''Conversion failed with error code '' @ str_int (returncode w)))]"
    by (simp add: finish_def exit_error_message_def nvenc_error_message_def list_ex_iff)
  with r p show ?thesis by simp
qed

text \<open>
  C9 fails on the code. The handler around the progress parser catches
  \<^verbatim>\<open>IndexError\<close>, \<^verbatim>\<open>ValueError\<close> and \<^verbatim>\<open>ZeroDivisionError\<close>, but not the
  \<^verbatim>\<open>OverflowError\<close> that \<^verbatim>\<open>int\<close> raises on an infinity. When the encoder prints a
  line whose text after \<^verbatim>\<open>time=\<close> has a seconds field that reads as an infinity (here a
  title tag of the input that the encoder echoes) and then exits with code 1, the
  exception leaves the loop: the run neither waits for the encoder nor looks at its
  return code, and the failure it emits is of neither kind.
\<close>

theorem exit_failure_unclassified:
  "run \<lparr>ffmpeg_installed = True, video_duration = 120, encoders_stdout = None,
       nvenc_test_returncode = None, start_time = 0,
       output_lines = [(''    title           : time=00:00:inf'', 1),
         (''Conversion failed!'', 2)],
       returncode = 1\<rparr>
      \<lparr>input_file = ''a.avi'', output_file = ''a.mp4'', preset = ''medium'',
       format = ''mp4'', use_nvenc = False\<rparr>
   = [Invoke [''ffmpeg'', ''-version''], DurationProbe,
      Popen [''ffmpeg'', ''-i'', ''a.avi'', ''-c:v'', ''libx264'', ''-preset'', ''medium'',
             ''-c:a'', ''aac'', ''-y'', ''a.mp4''],
      ReadLine ''    title           : time=00:00:inf'',
      Emit (conversion_error
        ''Error during conversion: cannot convert float infinity to integer'')]"
  by (simp add: run_def encode_def finish_def nvenc_used_def ffmpeg_cmd_def parser_eval)

section \<open>Fallback from the hardware encoder\<close>

text \<open>
  A job that requests the hardware encoder and whose own probe fails opens the encoder
  with the software codec, after the notice of the fallback.
\<close>

lemma nvenc_fallback_run:
  assumes "ffmpeg_installed w" and "0 < video_duration w" and "use_nvenc c"
    and "\<not> is_nvenc_available w"
  shows "run w c = [Invoke [''ffmpeg'', ''-version''], DurationProbe]
             @ nvenc_invocations w
             @ [Emit (conversion_error fallback_notice),
                Popen (ffmpeg_cmd (input_file c) (output_file c) (preset c) False)]
             @ tl (encode w c)"
proof -
  from assms have u: "\<not> nvenc_used w c" by (simp add: nvenc_used_def)
  then have "encode w c
      = Popen (ffmpeg_cmd (input_file c) (output_file c) (preset c) False) # tl (encode w c)"
    by (simp add: encode_def)
  with assms run_started [of w c] show ?thesis by simp
qed

section \<open>The window and its threads\<close>

lemmas app_eval =
  start_conversion_def start_thread_def thread_start_def new_thread_def make_converter_def
  output_path_def splitext_def splitext_on_def rfind_def init_app_def work_def
  conversion_failed_def conversion_failed_resumed_def conversion_completed_def
  update_progress_def reset_ui_def
  cancel_conversion_def terminate_running_def run_def encode_def finish_def
  nvenc_invocations_def is_nvenc_available_def nvenc_used_def ffmpeg_cmd_def
  parse_progress_def running_jobs_def converting_def Let_def

text \<open>
  C3 fails on the code. Two files are submitted in batch mode with the NVENC checkbox
  ticked although the detection was negative, and the caller confirms. The first thread
  probes NVENC, emits the fallback notice as a \<^verbatim>\<open>conversion_error\<close> and opens its
  encoder. The window handles the notice in \<^verbatim>\<open>conversion_failed\<close>: it drops the first
  thread from the list and, once the error box has been closed, starts the second, which
  opens its encoder as well: two jobs are converting at once.
\<close>

theorem two_jobs_running:
  "running_jobs
     (exec [Work 0, Work 0, Work 0, Work 0, Work 0, Deliver, Dismiss,
            Work 1, Work 1, Work 1, Work 1, Work 1]
        (start_conversion True True
           (\<lambda>k. \<lparr>ffmpeg_installed = True, video_duration = 10,
                encoders_stdout = Some ''libx264'', nvenc_test_returncode = None,
                start_time = 0, output_lines = [(''frame=1'', 1)], returncode = 0\<rparr>)
           (init_app\<lparr>input_files := [''a.avi'', ''b.avi''], nvenc_checkbox := True,
              nvenc_text := NotDetected\<rparr>)))
   = [0, 1]"
  by (simp add: app_eval)

text \<open>
  C2 fails on the code, by the same defect. In the situation above the first thread is no
  longer in \<^verbatim>\<open>converter_threads\<close> when Cancel is pressed, so only the second thread
  is terminated; the first one goes on converting and its completion signal is emitted
  after the cancellation.
\<close>

theorem cancel_misses_running_job:
  "converting (threads
      (exec [Work 0, Work 0, Work 0, Work 0, Work 0, Deliver, Dismiss]
        (start_conversion True True
           (\<lambda>k. \<lparr>ffmpeg_installed = True, video_duration = 10,
                encoders_stdout = Some ''libx264'', nvenc_test_returncode = None,
                start_time = 0, output_lines = [(''frame=2'', 1)], returncode = 0\<rparr>)
           (init_app\<lparr>input_files := [''a.avi'', ''b.avi''], nvenc_checkbox := True,
              nvenc_text := NotDetected\<rparr>))) ! 0)
   \<and> map status (threads
      (exec [Work 0, Work 0, Work 0, Work 0, Work 0, Deliver, Dismiss, Cancel]
        (start_conversion True True
           (\<lambda>k. \<lparr>ffmpeg_installed = True, video_duration = 10,
                encoders_stdout = Some ''libx264'', nvenc_test_returncode = None,
                start_time = 0, output_lines = [(''frame=2'', 1)], returncode = 0\<rparr>)
           (init_app\<lparr>input_files := [''a.avi'', ''b.avi''], nvenc_checkbox := True,
              nvenc_text := NotDetected\<rparr>)))) = [Running, Terminated]
   \<and> events
      (exec [Work 0, Work 0, Work 0, Work 0, Work 0, Deliver, Dismiss, Cancel,
             Work 0, Work 0, Work 0, Work 0]
        (start_conversion True True
           (\<lambda>k. \<lparr>ffmpeg_installed = True, video_duration = 10,
                encoders_stdout = Some ''libx264'', nvenc_test_returncode = None,
                start_time = 0, output_lines = [(''frame=2'', 1)], returncode = 0\<rparr>)
           (init_app\<lparr>input_files := [''a.avi'', ''b.avi''], nvenc_checkbox := True,
              nvenc_text := NotDetected\<rparr>)))
     = [(0, progress_update 100 (Finite 0)), (0, conversion_complete ''a.mp4'')]"
  by (simp add: app_eval)


lemma exec_append: "exec (xs @ ys) s = exec ys (exec xs s)"
  by (induction xs arbitrary: s) simp_all

lemma quiescent_step:
  assumes "quiescent s" and "convert_btn_enabled s"
  shows "step a s = s"
proof (cases a)
  case (Work i)
  from assms(1) have "i < length (threads s) \<Longrightarrow> status (threads s ! i) \<noteq> Running"
    by (simp add: quiescent_def list_all_length)
  with Work show ?thesis by auto
next
  case Deliver
  with assms(1) show ?thesis by (simp add: quiescent_def)
next
  case Dismiss
  with assms(1) show ?thesis by (simp add: quiescent_def)
next
  case Cancel
  with assms(2) show ?thesis by simp
qed

lemma quiescent_exec:
  assumes "quiescent s" and "convert_btn_enabled s"
  shows "exec acts s = s"
  using assms by (induction acts) (simp_all add: quiescent_step del: step.simps)

text \<open>
  C4 fails on the code, by the same defect. Two files are submitted in batch mode with
  the NVENC checkbox ticked although the detection was negative, and the caller confirms.
  The fallback notice of the first job is handled as its failure: the first thread leaves
  the list and the error box opens. While the box is open the first job completes, and
  its completion is delivered: \<^verbatim>\<open>conversion_completed\<close> removes the first thread of the
  list, which now is the second job, finds the list empty and reports the success of all
  conversions. When the error box is closed, \<^verbatim>\<open>conversion_failed\<close> finds nothing left to
  start. The session is at rest with the second job never started, and no further step
  of a thread, delivery, closing of a box or Cancel changes that.
\<close>

theorem queued_job_never_started:
  "(let s = exec [Work 0, Work 0, Work 0, Work 0, Deliver,
                  Work 0, Work 0, Work 0, Work 0, Work 0, Work 0,
                  Deliver, Deliver, Dismiss, Dismiss]
          (start_conversion True True
             (\<lambda>k. \<lparr>ffmpeg_installed = True, video_duration = 10,
                  encoders_stdout = Some ''libx264'', nvenc_test_returncode = None,
                  start_time = 0, output_lines = [(''frame=3'', 1)], returncode = 0\<rparr>)
             (init_app\<lparr>input_files := [''a.avi'', ''b.avi''], nvenc_checkbox := True,
                nvenc_text := NotDetected\<rparr>))
    in processing_all s \<and> map status (threads s) = [Finished, NotStarted]
       \<and> converter_threads s = [] \<and> quiescent s \<and> convert_btn_enabled s
       \<and> (\<forall>acts. exec acts s = s))"
proof -
  define s where "s = exec [Work 0, Work 0, Work 0, Work 0, Deliver,
                  Work 0, Work 0, Work 0, Work 0, Work 0, Work 0,
                  Deliver, Deliver, Dismiss, Dismiss]
          (start_conversion True True
             (\<lambda>k. \<lparr>ffmpeg_installed = True, video_duration = 10,
                  encoders_stdout = Some ''libx264'', nvenc_test_returncode = None,
                  start_time = 0, output_lines = [(''frame=3'', 1)], returncode = 0\<rparr>)
             (init_app\<lparr>input_files := [''a.avi'', ''b.avi''], nvenc_checkbox := True,
                nvenc_text := NotDetected\<rparr>))"
  have a: "processing_all s" and b: "map status (threads s) = [Finished, NotStarted]"
    and c: "converter_threads s = []" and d: "quiescent s" and e: "convert_btn_enabled s"
    unfolding s_def by (simp_all add: app_eval quiescent_def)
  from d e have "\<forall>acts. exec acts s = s" by (simp add: quiescent_exec)
  with a b c d e show ?thesis unfolding s_def [symmetric] Let_def by simp
qed

section \<open>Probing of the hardware encoder\<close>

lemma monitor_no_invoke_filter: "filter is_invoke (fst (monitor duration started ls)) = []"
proof (induction ls)
  case Nil
  then show ?case by simp
next
  case (Cons l ls)
  obtain line now where l: "l = (line, now)" by (cases l)
  with Cons show ?case
    by (cases "parse_progress line duration started now") (auto split: prod.splits)
qed

lemma encode_no_invoke: "filter is_invoke (encode w c) = []"
proof (cases "monitor (video_duration w) (start_time w) (output_lines w)")
  case (fields effs captured r)
  with monitor_no_invoke_filter [of "video_duration w" "start_time w" "output_lines w"]
  show ?thesis by (cases r) (simp_all add: encode_def finish_def)
qed

lemma nvenc_invocations_invoke: "filter is_invoke (nvenc_invocations w) = nvenc_invocations w"
  by (simp add: nvenc_invocations_def split: option.splits)

lemma run_invocations:
  "filter is_invoke (run w c)
     = Invoke [''ffmpeg'', ''-version'']
       # (if ffmpeg_installed w \<and> 0 < video_duration w \<and> use_nvenc c
          then nvenc_invocations w else [])"
  by (simp add: run_def encode_no_invoke nvenc_invocations_invoke)

lemma start_thread_nvenc:
  "nvenc_text (start_thread i s) = nvenc_text s
   \<and> nvenc_checkbox (start_thread i s) = nvenc_checkbox s"
  by (simp add: start_thread_def)

lemma dispatch_nvenc:
  "nvenc_text (dispatch sig s) = nvenc_text s
   \<and> nvenc_checkbox (dispatch sig s) = nvenc_checkbox s"
proof (cases sig)
  case (progress_update v eta)
  then show ?thesis by (simp add: update_progress_def)
next
  case (conversion_complete out)
  then show ?thesis
    by (simp add: conversion_completed_def start_thread_nvenc reset_ui_def split: list.splits)
next
  case (conversion_error m)
  then show ?thesis
    by (simp add: conversion_failed_def split: list.splits)
qed

lemma step_nvenc:
  "nvenc_text (step a s) = nvenc_text s \<and> nvenc_checkbox (step a s) = nvenc_checkbox s"
proof (cases a)
  case (Work i)
  then show ?thesis by (simp add: work_def Let_def split: list.splits)
next
  case Deliver
  then show ?thesis by (simp add: dispatch_nvenc split: list.splits prod.splits)
next
  case Dismiss
  show ?thesis
  proof (cases "dialogs s")
    case Nil
    with Dismiss show ?thesis by simp
  next
    case (Cons d rest)
    with Dismiss show ?thesis
      by (cases d) (simp_all add: conversion_failed_resumed_def start_thread_nvenc reset_ui_def)
  qed
next
  case Cancel
  then show ?thesis by (simp add: cancel_conversion_def reset_ui_def split: list.splits)
qed

lemma exec_nvenc:
  "nvenc_text (exec acts s) = nvenc_text s \<and> nvenc_checkbox (exec acts s) = nvenc_checkbox s"
  by (induction acts arbitrary: s) (simp_all add: step_nvenc del: step.simps)

lemma start_conversion_nvenc:
  "nvenc_text (start_conversion hf ca ws s) = nvenc_text s
   \<and> nvenc_checkbox (start_conversion hf ca ws s) = nvenc_checkbox s"
  by (simp add: start_conversion_def Let_def start_thread_nvenc)

text \<open>
  C5, as the code has it. The result of the detection that the window keeps (the text and
  the tick of the NVENC checkbox) is written by the detection at startup and by the manual
  test only: neither starting a conversion nor any step of a batch run changes it. But the
  jobs do not read it: every job that requests the hardware encoder runs the availability
  probe itself when it starts, once the encoder tool and the duration have been found.
  The subprocess calls of a run are, in this order, the check of the encoder tool and, for
  such a job only, the calls of the probe: the listing of the encoders and, when the
  hardware encoder is listed, \<^verbatim>\<open>nvidia-smi\<close> and the test encode. A job that does not
  request the hardware encoder runs no probe.
\<close>

theorem capability_probe_use:
  "filter is_invoke (run w c)
     = Invoke [''ffmpeg'', ''-version'']
       # (if ffmpeg_installed w \<and> 0 < video_duration w \<and> use_nvenc c
          then Invoke [''ffmpeg'', ''-hide_banner'', ''-encoders'']
            # (if (case encoders_stdout w of None \<Rightarrow> False
                     | Some out \<Rightarrow> contains ''h264_nvenc'' out)
               then [Invoke [''nvidia-smi''], Invoke nvenc_test_cmd] else [])
          else [])
   \<and> nvenc_text (start_conversion hf ca ws s) = nvenc_text s
   \<and> nvenc_checkbox (start_conversion hf ca ws s) = nvenc_checkbox s
   \<and> nvenc_text (exec acts s) = nvenc_text s
   \<and> nvenc_checkbox (exec acts s) = nvenc_checkbox s
   \<and> nvenc_text (check_nvenc_availability w s)
       = (if is_nvenc_available w then Detected else NotDetected)
   \<and> nvenc_text (nvenc_test_completed success details s)
       = (if success then Detected else NotDetected)"
proof -
  have "filter is_invoke (run w c)
     = Invoke [''ffmpeg'', ''-version'']
       # (if ffmpeg_installed w \<and> 0 < video_duration w \<and> use_nvenc c
          then Invoke [''ffmpeg'', ''-hide_banner'', ''-encoders'']
            # (if (case encoders_stdout w of None \<Rightarrow> False
                     | Some out \<Rightarrow> contains ''h264_nvenc'' out)
               then [Invoke [''nvidia-smi''], Invoke nvenc_test_cmd] else [])
          else [])"
    unfolding run_invocations
    by (simp add: nvenc_invocations_def encoders_cmd_def split: option.splits)
  then show ?thesis
    using start_conversion_nvenc [of hf ca ws s] exec_nvenc [of acts s]
    by (simp add: check_nvenc_availability_def nvenc_test_completed_def)
qed

theorem capability_probe_use_witness:
  "filter is_invoke (run \<lparr>ffmpeg_installed = True, video_duration = 10,
       encoders_stdout = Some ''h264_nvenc'', nvenc_test_returncode = Some 0,
       start_time = 0, output_lines = [], returncode = 0\<rparr>
      \<lparr>input_file = ''a.avi'', output_file = ''a.mp4'', preset = ''medium'',
       format = ''mp4'', use_nvenc = True\<rparr>)
     = [Invoke [''ffmpeg'', ''-version''], Invoke [''ffmpeg'', ''-hide_banner'', ''-encoders''],
        Invoke [''nvidia-smi''], Invoke nvenc_test_cmd]
   \<and> filter is_invoke (run \<lparr>ffmpeg_installed = True, video_duration = 10,
       encoders_stdout = Some ''h264_nvenc'', nvenc_test_returncode = Some 0,
       start_time = 0, output_lines = [], returncode = 0\<rparr>
      \<lparr>input_file = ''a.avi'', output_file = ''a.mp4'', preset = ''medium'',
       format = ''mp4'', use_nvenc = False\<rparr>)
     = [Invoke [''ffmpeg'', ''-version'']]"
proof -
  let ?w = "\<lparr>ffmpeg_installed = True, video_duration = 10,
       encoders_stdout = Some ''h264_nvenc'', nvenc_test_returncode = Some 0,
       start_time = 0, output_lines = [], returncode = 0\<rparr>"
  let ?c = "\<lparr>input_file = ''a.avi'', output_file = ''a.mp4'', preset = ''medium'',
       format = ''mp4'', use_nvenc = True\<rparr>"
  let ?d = "\<lparr>input_file = ''a.avi'', output_file = ''a.mp4'', preset = ''medium'',
       format = ''mp4'', use_nvenc = False\<rparr>"
  from capability_probe_use [of ?w ?c]
  have a: "filter is_invoke (run ?w ?c)
     = [Invoke [''ffmpeg'', ''-version''], Invoke [''ffmpeg'', ''-hide_banner'', ''-encoders''],
        Invoke [''nvidia-smi''], Invoke nvenc_test_cmd]"
    by simp
  from capability_probe_use [of ?w ?d]
  have b: "filter is_invoke (run ?w ?d) = [Invoke [''ffmpeg'', ''-version'']]" by simp
  from a b show ?thesis by (intro conjI)
qed

text \<open>
  C5 as stated fails: in a batch run with the hardware encoder requested, the queued
  second job, once the completion of the first has started it, has the three probe
  invocations ahead of it like every other job.
\<close>

theorem capability_probe_counterexample:
  "map (\<lambda>t. (status t, take 5 (script t))) (threads
     (exec [Work 0, Work 0, Work 0, Work 0, Work 0, Work 0, Work 0, Work 0, Work 0, Work 0,
            Deliver, Deliver]
        (start_conversion True False
           (\<lambda>k. \<lparr>ffmpeg_installed = True, video_duration = 10,
                encoders_stdout = Some ''h264_nvenc'', nvenc_test_returncode = Some 0,
                start_time = 0, output_lines = [], returncode = 0\<rparr>)
           (init_app\<lparr>input_files := [''a.avi'', ''b.avi''], nvenc_checkbox := True,
              nvenc_text := Detected\<rparr>))))
   = [(Finished, []),
      (Running, [Invoke [''ffmpeg'', ''-version''], DurationProbe, Invoke encoders_cmd,
                 Invoke [''nvidia-smi''], Invoke nvenc_test_cmd])]"
  by (simp add: app_eval)

section \<open>The state after Start\<close>


lemma start_conversion_proceeds:
  assumes "input_files s \<noteq> []"
    and "\<not> (nvenc_checkbox s \<and> nvenc_text s = NotDetected \<and> \<not> continue_anyway)"
  shows "start_conversion True continue_anyway ws s =
     start_thread (length (threads s))
       (s\<lparr>processing_all := batch_checkbox s, convert_btn_enabled := False,
          threads := threads s
            @ map (\<lambda>k. new_thread (make_converter s (input_files s ! k)) (ws k))
                [0..<length (input_files s)],
          converter_threads := [length (threads s)..<length (threads s) + length (input_files s)],
          progress_bar := 0\<rparr>)"
  using assms by (auto simp: start_conversion_def Let_def)

lemma start_conversion_state:
  fixes s :: app and ws :: "nat \<Rightarrow> world" and continue_anyway :: bool
  assumes f: "input_files s \<noteq> []"
    and g: "\<not> (nvenc_checkbox s \<and> nvenc_text s = NotDetected \<and> \<not> continue_anyway)"
  defines "s0 \<equiv> start_conversion True continue_anyway ws s"
  defines "b \<equiv> length (threads s)"
  defines "n \<equiv> length (input_files s)"
  shows "length (threads s0) = b + n"
    and "processing_all s0 = batch_checkbox s"
    and "converter_threads s0 = [b..<b + n]"
    and "events s0 = events s"
    and "\<And>i. i < b \<Longrightarrow> threads s0 ! i = threads s ! i"
    and "status (threads s0 ! b) = Running"
    and "script (threads s0 ! b)
           = run (ws 0) (make_converter s (input_files s ! 0))"
    and "\<And>i. b < i \<Longrightarrow> i < b + n \<Longrightarrow> status (threads s0 ! i) = NotStarted"
    and "\<And>i. b \<le> i \<Longrightarrow> i < b + n
           \<Longrightarrow> conv (threads s0 ! i) = make_converter s (input_files s ! (i - b))"
    and "\<And>i. b \<le> i \<Longrightarrow> i < b + n \<Longrightarrow> env (threads s0 ! i) = ws (i - b)"
    and "\<And>i. b \<le> i \<Longrightarrow> i < b + n \<Longrightarrow> own_script (threads s0 ! i)"
proof -
  let ?created = "map (\<lambda>k. new_thread (make_converter s (input_files s ! k)) (ws k))
                [0..<length (input_files s)]"
  let ?ts = "threads s @ ?created"
  from f have n0: "0 < n" by (simp add: n_def)
  have th: "threads s0 = ?ts[b := thread_start (?ts ! b)]"
    unfolding s0_def start_conversion_proceeds [OF f g] by (simp add: start_thread_def b_def)
  have nb: "?ts ! b = new_thread (make_converter s (input_files s ! 0)) (ws 0)"
    using n0 by (simp add: nth_append b_def n_def)
  have nth_new: "?ts ! i = new_thread (make_converter s (input_files s ! (i - b))) (ws (i - b))"
    if "b \<le> i" "i < b + n" for i
    using that by (simp add: nth_append b_def n_def)
  show "length (threads s0) = b + n" using th by (simp add: b_def n_def)
  show "processing_all s0 = batch_checkbox s"
    unfolding s0_def start_conversion_proceeds [OF f g] by (simp add: start_thread_def)
  show "converter_threads s0 = [b..<b + n]"
    unfolding s0_def start_conversion_proceeds [OF f g]
    by (simp add: start_thread_def b_def n_def)
  show "events s0 = events s"
    unfolding s0_def start_conversion_proceeds [OF f g] by (simp add: start_thread_def)
  show "threads s0 ! i = threads s ! i" if "i < b" for i
    using that th by (simp add: nth_append b_def)
  show "status (threads s0 ! b) = Running"
    using th nb n0 by (simp add: thread_start_def new_thread_def b_def n_def)
  show "script (threads s0 ! b) = run (ws 0) (make_converter s (input_files s ! 0))"
    using th nb n0 by (simp add: thread_start_def new_thread_def b_def n_def)
  show "status (threads s0 ! i) = NotStarted" if "b < i" "i < b + n" for i
    using that th nth_new [of i] by (simp add: new_thread_def)
  show "conv (threads s0 ! i) = make_converter s (input_files s ! (i - b))"
    if "b \<le> i" "i < b + n" for i
  proof (cases "i = b")
    case True
    with th nb n0 show ?thesis
      by (simp add: thread_start_def new_thread_def b_def n_def)
  next
    case False
    with that th nth_new [of i] show ?thesis by (simp add: new_thread_def)
  qed
  show "env (threads s0 ! i) = ws (i - b)" if "b \<le> i" "i < b + n" for i
  proof (cases "i = b")
    case True
    with th nb n0 show ?thesis
      by (simp add: thread_start_def new_thread_def b_def n_def)
  next
    case False
    with that th nth_new [of i] show ?thesis by (simp add: new_thread_def)
  qed
  show "own_script (threads s0 ! i)" if "b \<le> i" "i < b + n" for i
  proof (cases "i = b")
    case True
    with th nb n0 show ?thesis
      by (simp add: thread_start_def new_thread_def own_script_def b_def n_def)
  next
    case False
    with that th nth_new [of i] show ?thesis by (simp add: new_thread_def own_script_def)
  qed
qed

section \<open>Every thread runs its own converter\<close>

lemma perform_status: "status (perform e t) = status t"
  by (cases e) simp_all

lemma perform_fixed: "env (perform e t) = env t \<and> conv (perform e t) = conv t"
  by (cases e) simp_all

lemma thread_start_own:
  "conv (thread_start t) = conv t \<and> env (thread_start t) = env t
   \<and> (own_script t \<longrightarrow> own_script (thread_start t))"
  by (simp add: thread_start_def own_script_def)

lemma terminate_running_own:
  "conv (terminate_running t) = conv t \<and> env (terminate_running t) = env t
   \<and> (own_script t \<longrightarrow> own_script (terminate_running t))"
  by (auto simp: terminate_running_def own_script_def)

text \<open>
  What the steps of a session keep: the number of threads, the converter and the
  environment of each, and that each is in the run of its own converter.
\<close>

definition kept :: "app \<Rightarrow> app \<Rightarrow> bool" where
  "kept s s' = (length (threads s') = length (threads s)
     \<and> (\<forall>i < length (threads s). conv (threads s' ! i) = conv (threads s ! i)
           \<and> env (threads s' ! i) = env (threads s ! i)
           \<and> (own_script (threads s ! i) \<longrightarrow> own_script (threads s' ! i))))"

lemma kept_refl: "kept s s"
  by (simp add: kept_def)

lemma kept_trans: "kept s s' \<Longrightarrow> kept s' s'' \<Longrightarrow> kept s s''"
  by (simp add: kept_def)

lemma kept_same: "threads s' = threads s \<Longrightarrow> kept s s'"
  by (simp add: kept_def)

lemma start_thread_kept: "kept s (start_thread i s)"
proof -
  have "conv ((threads s)[i := thread_start (threads s ! i)] ! j) = conv (threads s ! j)
      \<and> env ((threads s)[i := thread_start (threads s ! i)] ! j) = env (threads s ! j)
      \<and> (own_script (threads s ! j)
          \<longrightarrow> own_script ((threads s)[i := thread_start (threads s ! i)] ! j))"
    if "j < length (threads s)" for j
    using that thread_start_own [of "threads s ! i"] by (cases "j = i") simp_all
  then show ?thesis by (simp add: kept_def start_thread_def)
qed

lemma work_kept:
  assumes "i < length (threads s)" and "status (threads s ! i) = Running"
  shows "kept s (work i s)"
proof (cases "script (threads s ! i)")
  case Nil
  have "own_script ((threads s ! i)\<lparr>status := Finished\<rparr>)"
    using Nil by (simp add: own_script_def)
  then have "conv ((threads s)[i := (threads s ! i)\<lparr>status := Finished\<rparr>] ! j)
        = conv (threads s ! j)
      \<and> env ((threads s)[i := (threads s ! i)\<lparr>status := Finished\<rparr>] ! j)
        = env (threads s ! j)
      \<and> (own_script (threads s ! j)
          \<longrightarrow> own_script ((threads s)[i := (threads s ! i)\<lparr>status := Finished\<rparr>] ! j))"
    if "j < length (threads s)" for j
    using that by (cases "j = i") simp_all
  with Nil show ?thesis by (simp add: kept_def work_def)
next
  case (Cons e es)
  let ?t = "(perform e (threads s ! i))\<lparr>script := es\<rparr>"
  have o: "own_script (threads s ! i) \<longrightarrow> own_script ?t"
  proof
    assume "own_script (threads s ! i)"
    with assms(2) Cons have "suffix (e # es) (run (env (threads s ! i)) (conv (threads s ! i)))"
      by (simp add: own_script_def)
    then have "suffix es (run (env (threads s ! i)) (conv (threads s ! i)))"
      by (rule suffix_ConsD)
    then show "own_script ?t" by (simp add: own_script_def perform_fixed)
  qed
  have "conv ((threads s)[i := ?t] ! j) = conv (threads s ! j)
      \<and> env ((threads s)[i := ?t] ! j) = env (threads s ! j)
      \<and> (own_script (threads s ! j) \<longrightarrow> own_script ((threads s)[i := ?t] ! j))"
    if "j < length (threads s)" for j
    using that o by (cases "j = i") (simp_all add: perform_fixed)
  with Cons show ?thesis by (simp add: kept_def work_def)
qed

lemma foldl_terminate_kept:
  "length (foldl (\<lambda>ts i. ts[i := terminate_running (ts ! i)]) ts js) = length ts
   \<and> (\<forall>j < length ts.
        conv (foldl (\<lambda>ts i. ts[i := terminate_running (ts ! i)]) ts js ! j) = conv (ts ! j)
        \<and> env (foldl (\<lambda>ts i. ts[i := terminate_running (ts ! i)]) ts js ! j) = env (ts ! j)
        \<and> (own_script (ts ! j)
            \<longrightarrow> own_script (foldl (\<lambda>ts i. ts[i := terminate_running (ts ! i)]) ts js ! j)))"
proof (induction js arbitrary: ts)
  case Nil
  then show ?case by simp
next
  case (Cons i js)
  let ?ts' = "ts[i := terminate_running (ts ! i)]"
  have "conv (?ts' ! j) = conv (ts ! j) \<and> env (?ts' ! j) = env (ts ! j)
      \<and> (own_script (ts ! j) \<longrightarrow> own_script (?ts' ! j))"
    if "j < length ts" for j
    using that terminate_running_own [of "ts ! i"] by (cases "j = i") simp_all
  with Cons [of ?ts'] show ?case by simp
qed

lemma dispatch_kept: "kept s (dispatch sig s)"
proof (cases sig)
  case (progress_update v eta)
  then show ?thesis by (simp add: update_progress_def kept_def)
next
  case (conversion_complete out)
  show ?thesis
  proof (cases "converter_threads s")
    case Nil
    with conversion_complete show ?thesis by (simp add: conversion_completed_def kept_def)
  next
    case (Cons completed rest)
    have "kept (s\<lparr>converter_threads := rest, progress_bar := 0\<rparr>)
        (start_thread (hd rest) (s\<lparr>converter_threads := rest, progress_bar := 0\<rparr>))"
      by (rule start_thread_kept)
    then have "kept s (start_thread (hd rest) (s\<lparr>converter_threads := rest, progress_bar := 0\<rparr>))"
      by (simp add: kept_def)
    with conversion_complete Cons show ?thesis
      by (simp add: conversion_completed_def reset_ui_def kept_def)
  qed
next
  case (conversion_error m)
  then show ?thesis by (simp add: conversion_failed_def kept_def split: list.splits)
qed

lemma step_kept: "kept s (step a s)"
proof (cases a)
  case (Work i)
  then show ?thesis using work_kept [of i s] by (simp add: kept_refl)
next
  case Deliver
  show ?thesis
  proof (cases "events s")
    case Nil
    with Deliver show ?thesis by (simp add: kept_refl)
  next
    case (Cons ev rest)
    obtain i sig where ev: "ev = (i, sig)" by (cases ev)
    have "kept (s\<lparr>events := rest\<rparr>) (dispatch sig (s\<lparr>events := rest\<rparr>))"
      by (rule dispatch_kept)
    then have "kept s (dispatch sig (s\<lparr>events := rest\<rparr>))" by (simp add: kept_def)
    with Deliver Cons ev show ?thesis by simp
  qed
next
  case Dismiss
  show ?thesis
  proof (cases "dialogs s")
    case Nil
    with Dismiss show ?thesis by (simp add: kept_refl)
  next
    case (Cons d rest)
    have "kept (s\<lparr>dialogs := rest, progress_bar := 0\<rparr>)
        (start_thread (hd (converter_threads s)) (s\<lparr>dialogs := rest, progress_bar := 0\<rparr>))"
      by (rule start_thread_kept)
    then have "kept s
        (start_thread (hd (converter_threads s)) (s\<lparr>dialogs := rest, progress_bar := 0\<rparr>))"
      by (simp add: kept_def)
    with Dismiss Cons show ?thesis
      by (cases d) (simp_all add: conversion_failed_resumed_def reset_ui_def kept_def)
  qed
next
  case Cancel
  then show ?thesis
    using foldl_terminate_kept [of "threads s" "converter_threads s"]
    by (simp add: cancel_conversion_def reset_ui_def kept_def split: list.splits)
qed

lemma exec_kept: "kept s (exec acts s)"
proof (induction acts arbitrary: s)
  case Nil
  then show ?case by (simp add: kept_refl)
next
  case (Cons a acts)
  have "kept s (step a s)" by (rule step_kept)
  moreover have "kept (step a s) (exec acts (step a s))" by (rule Cons)
  ultimately show ?case using kept_trans by simp
qed

section \<open>The commands that a run opens\<close>

lemma monitor_no_popen: "Popen cmd \<notin> set (fst (monitor duration started ls))"
proof (induction ls)
  case Nil
  then show ?case by simp
next
  case (Cons l ls)
  obtain line now where l: "l = (line, now)" by (cases l)
  with Cons show ?case
    by (cases "parse_progress line duration started now") (auto split: prod.splits)
qed

lemma run_popen_only:
  assumes "Popen cmd \<in> set (run w c)"
  shows "cmd = ffmpeg_cmd (input_file c) (output_file c) (preset c) (nvenc_used w c)"
proof -
  have n: "Popen cmd \<notin> set (nvenc_invocations w)"
    by (simp add: nvenc_invocations_def split: option.splits)
  from assms n have "Popen cmd \<in> set (encode w c)"
    by (auto simp: run_def split: if_splits)
  then show ?thesis
  proof (cases "monitor (video_duration w) (start_time w) (output_lines w)")
    case (fields effs captured r)
    with \<open>Popen cmd \<in> set (encode w c)\<close>
      monitor_no_popen [of cmd "video_duration w" "start_time w" "output_lines w"]
    show ?thesis by (cases r) (auto simp: encode_def finish_def split: if_splits)
  qed
qed

lemma run_popen:
  assumes "ffmpeg_installed w" and "0 < video_duration w"
  shows "Popen (ffmpeg_cmd (input_file c) (output_file c) (preset c) (nvenc_used w c))
     \<in> set (run w c)"
  using run_started [OF assms, of c] by (simp add: encode_def)

section \<open>Output path\<close>

lemma splitext_on_append: "fst (splitext_on seps p) @ snd (splitext_on seps p) = p"
  by (simp add: splitext_on_def Let_def)

text \<open>
  C10. With no output directory chosen, the output path of an input file is the input
  path with its extension (as \<^verbatim>\<open>os.path.splitext\<close> finds it) replaced by a dot and the
  selected format, so when the extension already is the selected format, the output path
  is the input path. This is the converter that Start creates for the file (once the
  encoder tool has been found and, where the question is asked, the caller has
  confirmed): the thread of the \<open>k\<close>-th file holds it whatever happens in the session, and
  once started it is in the run of that converter. Every command that such a run opens
  names the input file after \<^verbatim>\<open>-i\<close> and, last, after the overwrite flag \<^verbatim>\<open>-y\<close>, the
  output path, which is the input file itself in the case above; and the run opens such a
  command whenever the encoder tool and the duration are found.
\<close>

theorem output_path_same_directory:
  assumes "output_directory s = None"
  shows "output_file (make_converter s inp) = fst (splitext inp) @ ''.'' @ format_combo s
     \<and> input_file (make_converter s inp) = inp
     \<and> (snd (splitext inp) = ''.'' @ format_combo s
          \<longrightarrow> output_file (make_converter s inp) = inp)
     \<and> (k < length (input_files s)
          \<and> (nvenc_checkbox s \<and> nvenc_text s = NotDetected \<longrightarrow> continue_anyway)
        \<longrightarrow> (let t = threads (exec acts (start_conversion True continue_anyway ws s))
                       ! (length (threads s) + k)
             in conv t = make_converter s (input_files s ! k) \<and> env t = ws k
                \<and> own_script t))
     \<and> (input_files s \<noteq> []
          \<and> (nvenc_checkbox s \<and> nvenc_text s = NotDetected \<longrightarrow> continue_anyway)
        \<longrightarrow> (let t = threads (start_conversion True continue_anyway ws s)
                       ! length (threads s)
             in status t = Running
                \<and> script t = run (ws 0) (make_converter s (input_files s ! 0))))
     \<and> (ffmpeg_installed w \<and> 0 < video_duration w
        \<longrightarrow> (\<exists>cmd. Popen cmd \<in> set (run w (make_converter s inp))))
     \<and> (\<forall>cmd. Popen cmd \<in> set (run w (make_converter s inp))
        \<longrightarrow> cmd ! 2 = inp \<and> ''-y'' \<in> set cmd
            \<and> last cmd = fst (splitext inp) @ ''.'' @ format_combo s
            \<and> (snd (splitext inp) = ''.'' @ format_combo s \<longrightarrow> last cmd = inp))"
proof -
  let ?c = "make_converter s inp"
  from assms have o: "output_file ?c = fst (splitext inp) @ ''.'' @ format_combo s"
    by (simp add: make_converter_def output_path_def)
  have i: "input_file ?c = inp" by (simp add: make_converter_def)
  have e: "snd (splitext inp) = ''.'' @ format_combo s \<longrightarrow> output_file ?c = inp"
  proof
    assume x: "snd (splitext inp) = ''.'' @ format_combo s"
    have "output_file ?c = fst (splitext inp) @ snd (splitext inp)" unfolding o x ..
    also have "\<dots> = inp" unfolding splitext_def by (rule splitext_on_append)
    finally show "output_file ?c = inp" .
  qed
  have t: "k < length (input_files s)
          \<and> (nvenc_checkbox s \<and> nvenc_text s = NotDetected \<longrightarrow> continue_anyway)
        \<longrightarrow> (let t = threads (exec acts (start_conversion True continue_anyway ws s))
                       ! (length (threads s) + k)
             in conv t = make_converter s (input_files s ! k) \<and> env t = ws k
                \<and> own_script t)"
  proof
    assume a: "k < length (input_files s)
          \<and> (nvenc_checkbox s \<and> nvenc_text s = NotDetected \<longrightarrow> continue_anyway)"
    let ?s0 = "start_conversion True continue_anyway ws s"
    let ?i = "length (threads s) + k"
    from a have f: "input_files s \<noteq> []"
      and g: "\<not> (nvenc_checkbox s \<and> nvenc_text s = NotDetected \<and> \<not> continue_anyway)"
      by auto
    note st = start_conversion_state [OF f g, where ws = ws]
    from a st(1) have l: "?i < length (threads ?s0)" by simp
    from a st(9) [of ?i] have c0: "conv (threads ?s0 ! ?i) = make_converter s (input_files s ! k)"
      by simp
    from a st(10) [of ?i] have e0: "env (threads ?s0 ! ?i) = ws k" by simp
    from a st(11) [of ?i] have o0: "own_script (threads ?s0 ! ?i)" by simp
    have "kept ?s0 (exec acts ?s0)" by (rule exec_kept)
    with l c0 e0 o0 show "let t = threads (exec acts ?s0) ! ?i
        in conv t = make_converter s (input_files s ! k) \<and> env t = ws k \<and> own_script t"
      by (simp add: kept_def Let_def)
  qed
  have u: "input_files s \<noteq> []
          \<and> (nvenc_checkbox s \<and> nvenc_text s = NotDetected \<longrightarrow> continue_anyway)
        \<longrightarrow> (let t = threads (start_conversion True continue_anyway ws s)
                       ! length (threads s)
             in status t = Running
                \<and> script t = run (ws 0) (make_converter s (input_files s ! 0)))"
  proof
    assume a: "input_files s \<noteq> []
          \<and> (nvenc_checkbox s \<and> nvenc_text s = NotDetected \<longrightarrow> continue_anyway)"
    then have f: "input_files s \<noteq> []"
      and g: "\<not> (nvenc_checkbox s \<and> nvenc_text s = NotDetected \<and> \<not> continue_anyway)"
      by auto
    note st = start_conversion_state [OF f g, where ws = ws]
    from st(6,7) show "let t = threads (start_conversion True continue_anyway ws s)
                       ! length (threads s)
             in status t = Running
                \<and> script t = run (ws 0) (make_converter s (input_files s ! 0))"
      by (simp add: Let_def)
  qed
  have p: "ffmpeg_installed w \<and> 0 < video_duration w
        \<longrightarrow> (\<exists>cmd. Popen cmd \<in> set (run w ?c))"
    using run_popen [of w ?c] by blast
  have q: "\<forall>cmd. Popen cmd \<in> set (run w ?c)
        \<longrightarrow> cmd ! 2 = inp \<and> ''-y'' \<in> set cmd
            \<and> last cmd = fst (splitext inp) @ ''.'' @ format_combo s
            \<and> (snd (splitext inp) = ''.'' @ format_combo s \<longrightarrow> last cmd = inp)"
  proof (intro allI impI)
    fix cmd assume "Popen cmd \<in> set (run w ?c)"
    then have "cmd = ffmpeg_cmd (input_file ?c) (output_file ?c) (preset ?c) (nvenc_used w ?c)"
      by (rule run_popen_only)
    then have c: "cmd = ffmpeg_cmd inp (output_file ?c) (preset ?c) (nvenc_used w ?c)"
      unfolding i .
    have a: "cmd ! 2 = inp" and y: "''-y'' \<in> set cmd" and l: "last cmd = output_file ?c"
      unfolding c by (simp_all add: ffmpeg_cmd_shape)
    from l e have "snd (splitext inp) = ''.'' @ format_combo s \<longrightarrow> last cmd = inp"
      by simp
    with a y l show "cmd ! 2 = inp \<and> ''-y'' \<in> set cmd
            \<and> last cmd = fst (splitext inp) @ ''.'' @ format_combo s
            \<and> (snd (splitext inp) = ''.'' @ format_combo s \<longrightarrow> last cmd = inp)"
      unfolding o by (intro conjI)
  qed
  show ?thesis by (intro conjI; fact)
qed

theorem output_path_same_directory_witness:
  "output_directory (init_app\<lparr>input_files := [''/videos/clip.mp4'']\<rparr>) = None
   \<and> snd (splitext ''/videos/clip.mp4'')
       = ''.'' @ format_combo (init_app\<lparr>input_files := [''/videos/clip.mp4'']\<rparr>)
   \<and> output_file (make_converter (init_app\<lparr>input_files := [''/videos/clip.mp4'']\<rparr>)
        ''/videos/clip.mp4'') = ''/videos/clip.mp4''
   \<and> conv (threads (exec [Work 0, Work 0, Work 0]
        (start_conversion True False
           (\<lambda>k. \<lparr>ffmpeg_installed = True, video_duration = 10, encoders_stdout = None,
                nvenc_test_returncode = None, start_time = 0, output_lines = [],
                returncode = 0\<rparr>)
           (init_app\<lparr>input_files := [''/videos/clip.mp4'']\<rparr>))) ! 0)
       = make_converter (init_app\<lparr>input_files := [''/videos/clip.mp4'']\<rparr>)
           ''/videos/clip.mp4''
   \<and> (\<exists>cmd. Popen cmd \<in> set (run
          \<lparr>ffmpeg_installed = True, video_duration = 10, encoders_stdout = None,
           nvenc_test_returncode = None, start_time = 0, output_lines = [],
           returncode = 0\<rparr>
          (make_converter (init_app\<lparr>input_files := [''/videos/clip.mp4'']\<rparr>)
             ''/videos/clip.mp4''))
        \<and> cmd ! 2 = ''/videos/clip.mp4'' \<and> ''-y'' \<in> set cmd
        \<and> last cmd = ''/videos/clip.mp4'')"
proof -
  let ?s = "init_app\<lparr>input_files := [''/videos/clip.mp4'']\<rparr>"
  let ?w = "\<lparr>ffmpeg_installed = True, video_duration = 10, encoders_stdout = None,
           nvenc_test_returncode = None, start_time = 0, output_lines = [],
           returncode = 0\<rparr>"
  let ?inp = "''/videos/clip.mp4''"
  have h: "output_directory ?s = None" by (simp add: init_app_def)
  have e: "snd (splitext ?inp) = ''.'' @ format_combo ?s"
    by (simp add: splitext_def splitext_on_def rfind_def init_app_def)
  have k: "0 < length (input_files ?s)
      \<and> (nvenc_checkbox ?s \<and> nvenc_text ?s = NotDetected \<longrightarrow> False)"
    by (simp add: init_app_def)
  have i: "input_files ?s ! 0 = ?inp" "length (threads ?s) + 0 = 0"
    by (simp_all add: init_app_def)
  have f: "ffmpeg_installed ?w \<and> 0 < video_duration ?w" by simp
  note t = output_path_same_directory [OF h, where inp = ?inp and k = 0
      and continue_anyway = False and acts = "[Work 0, Work 0, Work 0]"
      and ws = "\<lambda>k. ?w" and w = ?w]
  from t e have a: "output_file (make_converter ?s ?inp) = ?inp" by blast
  from t k have "let t = threads (exec [Work 0, Work 0, Work 0]
        (start_conversion True False (\<lambda>k. ?w) ?s)) ! (length (threads ?s) + 0)
      in conv t = make_converter ?s (input_files ?s ! 0) \<and> env t = ?w \<and> own_script t"
    by blast
  then have b: "conv (threads (exec [Work 0, Work 0, Work 0]
        (start_conversion True False (\<lambda>k. ?w) ?s)) ! 0) = make_converter ?s ?inp"
    unfolding Let_def i by blast
  from t f obtain cmd where c: "Popen cmd \<in> set (run ?w (make_converter ?s ?inp))"
    by blast
  with t e have "cmd ! 2 = ?inp \<and> ''-y'' \<in> set cmd \<and> last cmd = ?inp" by blast
  with c have d: "\<exists>cmd. Popen cmd \<in> set (run ?w (make_converter ?s ?inp))
        \<and> cmd ! 2 = ?inp \<and> ''-y'' \<in> set cmd \<and> last cmd = ?inp"
    by blast
  from h e a b d show ?thesis by (intro conjI)
qed


end
